theory Spec2Isabelle
  imports Main "HOL-Library.Code_Target_Numeral"
begin

section \<open>The thread-locked fiber scheduler\<close>

text \<open>
  A shallow embedding of \<^verbatim>\<open>thread_locked_scheduler.hpp\<close> and of the statics defined
  in \<^verbatim>\<open>thread_locked_scheduler.cpp\<close>. Objects live in explicit stores indexed by
  their addresses; the three statics of the class and the function-local
  \<^verbatim>\<open>std::once_flag\<close> are fields of one machine state. Undefined behaviour of the C++
  (re-locking a held mutex, \<^verbatim>\<open>%\<close> by zero, indexing a vector out of range, calling
  through a null pointer) is a value of type \<open>error\<close>.
\<close>

subsection \<open>Addresses, errors, sequencing\<close>

type_synonym ctx = nat     \<comment> \<open>\<^verbatim>\<open>boost::fibers::context *\<close>\<close>
type_synonym sched = nat   \<comment> \<open>\<^verbatim>\<open>thread_locked_scheduler *\<close>\<close>
type_synonym pref = nat    \<comment> \<open>\<^verbatim>\<open>thread_locked_props &\<close>\<close>

datatype error =
    Deadlock            \<comment> \<open>\<^verbatim>\<open>s_mutex\<close> locked while it is already held\<close>
  | NotLocked           \<comment> \<open>\<^verbatim>\<open>unlock\<close> of a mutex that is not held\<close>
  | ModuloByZero        \<comment> \<open>\<^verbatim>\<open>% std::size(s_schedulers)\<close> with an empty vector\<close>
  | IndexOutOfRange     \<comment> \<open>\<^verbatim>\<open>s_schedulers[i]\<close> with \<open>i\<close> not below the size\<close>
  | NullDereference     \<comment> \<open>\<^verbatim>\<open>next->accept\<close> on a slot that still holds \<^verbatim>\<open>nullptr\<close>\<close>
  | InvalidThreadCount  \<comment> \<open>the barrier of the constructor cannot be built for 0 threads\<close>

definition and_then :: "error + 'a \<Rightarrow> ('a \<Rightarrow> error + 'b) \<Rightarrow> error + 'b" where
  "and_then r f = (case r of Inl e \<Rightarrow> Inl e | Inr x \<Rightarrow> f x)"

text \<open>\<^verbatim>\<open>std::size_t\<close> is taken to be 64 bits wide; an increment wraps around.\<close>

definition size_t_wrap :: "nat \<Rightarrow> nat" where
  "size_t_wrap n = n mod 2 ^ 64"

subsection \<open>The fiber property\<close>

text \<open>
  \<^verbatim>\<open>class thread_locked_props\<close> (lines 56 to 78). The field \<open>notifications\<close> counts the
  calls of the inherited \<^verbatim>\<open>fiber_properties::notify()\<close>, which hands the change to the
  scheduler's \<^verbatim>\<open>property_change\<close>; the scheduler does not override it, so the call has
  no other effect.
\<close>

record thread_locked_props =
  m_previously_awakened :: bool
  notifications :: nat

definition new_props :: "ctx \<Rightarrow> thread_locked_props" where
  "new_props c = \<lparr> m_previously_awakened = False, notifications = 0 \<rparr>"

definition was_previously_awakened :: "thread_locked_props \<Rightarrow> bool \<times> thread_locked_props" where
  "was_previously_awakened p = (m_previously_awakened p, p)"

definition set_previously_awakened :: "thread_locked_props \<Rightarrow> thread_locked_props" where
  "set_previously_awakened p =
     (if \<not> m_previously_awakened p
      then p \<lparr> m_previously_awakened := True, notifications := notifications p + 1 \<rparr>
      else p)"

subsection \<open>Contexts, policies and the machine state\<close>

text \<open>
  Of a \<^verbatim>\<open>boost::fibers::context\<close> the policy reads whether it is a pinned context and
  changes its owning scheduler through \<^verbatim>\<open>detach\<close> and \<^verbatim>\<open>attach\<close>.
\<close>

record fiber_context =
  pinned :: bool
  owner :: "sched option"

record thread_locked_scheduler =
  m_local_queue :: "ctx list"
  m_flag :: bool
  m_suspend :: bool

record machine =
  s_current_scheduler :: nat
  s_schedulers :: "sched option list"
  s_mutex :: bool
  once_flag :: bool
  schedulers :: "sched \<Rightarrow> thread_locked_scheduler"
  contexts :: "ctx \<Rightarrow> fiber_context"
  properties :: "pref \<Rightarrow> thread_locked_props"
  steady_clock :: int

text \<open>
  \<open>steady_clock\<close> is the reading of \<^verbatim>\<open>std::chrono::steady_clock\<close>, in ticks of its period.
\<close>

text \<open>The statics as \<^verbatim>\<open>thread_locked_scheduler.cpp\<close> initialises them, over given stores.\<close>

definition static_init ::
  "(sched \<Rightarrow> thread_locked_scheduler) \<Rightarrow> (ctx \<Rightarrow> fiber_context) \<Rightarrow> (pref \<Rightarrow> thread_locked_props)
     \<Rightarrow> machine" where
  "static_init ss cs ps =
     \<lparr> s_current_scheduler = 0, s_schedulers = [], s_mutex = False, once_flag = False,
       schedulers = ss, contexts = cs, properties = ps, steady_clock = 0 \<rparr>"

subsection \<open>The mutex\<close>

text \<open>
  \<^verbatim>\<open>s_mutex\<close> is held or free. Calls run one after the other here, so a call that
  wants the mutex while it is held can never go on.
\<close>

definition lock :: "machine \<Rightarrow> error + machine" where
  "lock s = (if s_mutex s then Inl Deadlock else Inr (s \<lparr> s_mutex := True \<rparr>))"

definition unlock :: "machine \<Rightarrow> error + machine" where
  "unlock s = (if s_mutex s then Inr (s \<lparr> s_mutex := False \<rparr>) else Inl NotLocked)"

subsection \<open>Primitives of the host runtime\<close>

text \<open>
  Modelled from the spec: \<^verbatim>\<open>context::is_context(type::pinned_context)\<close>,
  \<^verbatim>\<open>context::detach()\<close> and \<^verbatim>\<open>context::active()->attach(ctx)\<close> belong to Boost.Fiber,
  which is not part of the sources. The spec describes them as the runtime's mark of a
  pinned context, as detaching a context from its current owning policy, and as making
  the scheduler of the active context the owner. The debug assertions of the runtime are
  not modelled.
\<close>

definition is_pinned_context :: "machine \<Rightarrow> ctx \<Rightarrow> bool" where
  "is_pinned_context s c = pinned (contexts s c)"

definition detach :: "ctx \<Rightarrow> machine \<Rightarrow> machine" where
  "detach c s = s \<lparr> contexts := (contexts s) (c := (contexts s c) \<lparr> owner := None \<rparr>) \<rparr>"

definition attach :: "sched \<Rightarrow> ctx \<Rightarrow> machine \<Rightarrow> machine" where
  "attach active c s =
     s \<lparr> contexts := (contexts s) (c := (contexts s c) \<lparr> owner := Some active \<rparr>) \<rparr>"

subsection \<open>Queue and registry accesses\<close>

definition push_back :: "sched \<Rightarrow> ctx \<Rightarrow> machine \<Rightarrow> machine" where
  "push_back this c s =
     s \<lparr> schedulers := (schedulers s)
           (this := (schedulers s this)
              \<lparr> m_local_queue := m_local_queue (schedulers s this) @ [c] \<rparr>) \<rparr>"

definition pop_front :: "sched \<Rightarrow> machine \<Rightarrow> machine" where
  "pop_front this s =
     s \<lparr> schedulers := (schedulers s)
           (this := (schedulers s this)
              \<lparr> m_local_queue := tl (m_local_queue (schedulers s this)) \<rparr>) \<rparr>"

definition set_flag :: "sched \<Rightarrow> bool \<Rightarrow> machine \<Rightarrow> machine" where
  "set_flag this b s =
     s \<lparr> schedulers := (schedulers s) (this := (schedulers s this) \<lparr> m_flag := b \<rparr>) \<rparr>"

text \<open>
  Line 161: \<^verbatim>\<open>s_current_scheduler = ++s_current_scheduler % std::size(s_schedulers)\<close>.
  The counter is a \<^verbatim>\<open>std::atomic\<close>: the pre-increment stores and yields the incremented
  value, the remainder is taken of that value, and the assignment stores the remainder.
\<close>

definition advance_cursor :: "machine \<Rightarrow> error + machine" where
  "advance_cursor s =
     (let incremented = size_t_wrap (s_current_scheduler s + 1) in
      if length (s_schedulers s) = 0 then Inl ModuloByZero
      else Inr (s \<lparr> s_current_scheduler := incremented mod length (s_schedulers s) \<rparr>))"

text \<open>Line 165: \<^verbatim>\<open>s_schedulers[s_current_scheduler]\<close>, and the pointer it yields.\<close>

definition read_target :: "machine \<Rightarrow> error + sched" where
  "read_target s =
     (if s_current_scheduler s < length (s_schedulers s)
      then (case s_schedulers s ! s_current_scheduler s of
              None \<Rightarrow> Inl NullDereference
            | Some next \<Rightarrow> Inr next)
      else Inl IndexOutOfRange)"

subsection \<open>The policy\<close>

text \<open>
  The constructor (lines 104 to 132); \<open>this\<close> is the address of the object under
  construction. The first call constructs the function-local barrier, for
  \<^verbatim>\<open>static_cast<std::uint32_t>(thread_count)\<close> threads, and allocates the registry with
  \<^verbatim>\<open>thread_count - 1\<close> null slots. \<^verbatim>\<open>boost::barrier\<close> rejects a count of 0, which
  includes a \<^verbatim>\<open>thread_count\<close> of 0, where the size of the registry would wrap around.
  The wait on the barrier only delays the return and is not part of the state.
\<close>

definition barrier_count :: "nat \<Rightarrow> nat" where
  "barrier_count thread_count = thread_count mod 2 ^ 32"

definition constructor :: "nat \<Rightarrow> bool \<Rightarrow> sched \<Rightarrow> machine \<Rightarrow> error + machine" where
  "constructor thread_count main_scheduler this s =
     (if \<not> once_flag s \<and> barrier_count thread_count = 0 then Inl InvalidThreadCount
      else
        let s1 = s \<lparr> schedulers := (schedulers s)
                       (this := \<lparr> m_local_queue = [], m_flag = False, m_suspend = False \<rparr>) \<rparr>;
            s2 = (if once_flag s1 then s1
                  else s1 \<lparr> s_schedulers := replicate (thread_count - 1) None,
                            once_flag := True \<rparr>)
        in if \<not> main_scheduler
           then (if s_current_scheduler s2 < length (s_schedulers s2)
                 then Inr (s2 \<lparr> s_schedulers :=
                                  (s_schedulers s2) [s_current_scheduler s2 := Some this],
                                s_current_scheduler :=
                                  size_t_wrap (s_current_scheduler s2 + 1) \<rparr>)
                 else Inl IndexOutOfRange)
           else Inr s2)"

text \<open>\<^verbatim>\<open>accept\<close> (lines 136 to 140): the guard holds the mutex over the push.\<close>

definition accept :: "sched \<Rightarrow> ctx \<Rightarrow> machine \<Rightarrow> error + machine" where
  "accept this c s = and_then (lock s) (\<lambda>s1. unlock (push_back this c s1))"

text \<open>
  \<^verbatim>\<open>awakened\<close> (lines 149 to 169). In the first two branches the mutex is released by
  the destructor of \<^verbatim>\<open>lock\<close> at the end of the function, in the third by the explicit
  \<^verbatim>\<open>lock.unlock()\<close> of line 163.
\<close>

definition awakened :: "sched \<Rightarrow> ctx \<Rightarrow> pref \<Rightarrow> machine \<Rightarrow> error + machine" where
  "awakened this c p s =
     and_then (lock s) (\<lambda>s1.
       if is_pinned_context s1 c then unlock (push_back this c s1)
       else
         let s2 = detach c s1 in
         if fst (was_previously_awakened (properties s2 p))
         then unlock (push_back this c s2)
         else
           and_then (advance_cursor s2) (\<lambda>s3.
           and_then (unlock s3) (\<lambda>s4.
             let s5 = s4 \<lparr> properties := (properties s4)
                             (p := set_previously_awakened (properties s4 p)) \<rparr> in
             and_then (read_target s5) (\<lambda>next.
               accept next c s5))))"

text \<open>
  \<^verbatim>\<open>pick_next\<close> (lines 172 to 188); \<open>active\<close> is the scheduler of
  \<^verbatim>\<open>context::active()\<close>, the context running on the calling thread.
\<close>

definition pick_next :: "sched \<Rightarrow> sched \<Rightarrow> machine \<Rightarrow> error + (ctx option \<times> machine)" where
  "pick_next this active s =
     and_then (lock s) (\<lambda>s1.
       case m_local_queue (schedulers s1 this) of
         [] \<Rightarrow> and_then (unlock s1) (\<lambda>s2. Inr (None, s2))
       | c # rest \<Rightarrow>
           and_then (unlock (pop_front this s1)) (\<lambda>s2.
             Inr (Some c, if \<not> is_pinned_context s2 c then attach active c s2 else s2)))"

text \<open>\<^verbatim>\<open>has_ready_fibers\<close> (lines 192 to 196).\<close>

definition has_ready_fibers :: "sched \<Rightarrow> machine \<Rightarrow> error + (bool \<times> machine)" where
  "has_ready_fibers this s =
     and_then (lock s) (\<lambda>s1.
       let r = (m_local_queue (schedulers s1 this) \<noteq> []) in
       and_then (unlock s1) (\<lambda>s2. Inr (r, s2)))"

text \<open>
  \<^verbatim>\<open>notify\<close> (lines 213 to 219). Signalling the condition variable changes no field;
  its effect on a waiting thread is part of the wait.
\<close>

definition notify :: "sched \<Rightarrow> machine \<Rightarrow> error + machine" where
  "notify this s = and_then (lock s) (\<lambda>s1. unlock (set_flag this True s1))"

subsection \<open>Sequences of calls\<close>

text \<open>
  The calls the host runtime and peer threads make on the policies of the pool, and
  their effect on the machine state when they run one after the other.
\<close>

datatype call =
    Construct nat bool sched
  | Accept sched ctx
  | Awakened sched ctx pref
  | PickNext sched sched
  | HasReadyFibers sched
  | Notify sched

fun perform :: "call \<Rightarrow> machine \<Rightarrow> error + machine" where
  "perform (Construct thread_count main_scheduler this) s =
     constructor thread_count main_scheduler this s"
| "perform (Accept this c) s = accept this c s"
| "perform (Awakened this c p) s = awakened this c p s"
| "perform (PickNext this active) s = and_then (pick_next this active s) (\<lambda>(r, s'). Inr s')"
| "perform (HasReadyFibers this) s = and_then (has_ready_fibers this s) (\<lambda>(r, s'). Inr s')"
| "perform (Notify this) s = notify this s"

fun run :: "call list \<Rightarrow> machine \<Rightarrow> error + machine" where
  "run [] s = Inr s"
| "run (c # cs) s = and_then (perform c s) (run cs)"

subsection \<open>The two sections of \<open>awakened\<close>\<close>



subsection \<open>Waiting on the condition variable\<close>

text \<open>
  Modelled from the spec: \<^verbatim>\<open>std::condition_variable\<close> and the steady clock are library
  code outside the sources. The spec has \<^verbatim>\<open>suspend_until\<close> block the calling thread on
  the condition variable, without a limit until the flag is observed true, or with a
  timeout until the deadline, keyed on the flag. A wait with a predicate is the loop
  \<^verbatim>\<open>while (!pred()) wait(lock)\<close>; the timed one leaves the loop with the value of the
  predicate when the deadline has expired. A single wait releases the mutex, blocks
  until the condition variable is signalled, the thread wakes spuriously or (timed) the
  clock reaches the deadline, and takes the mutex again.

  What happens while a thread is blocked is given from outside as a list of events: a
  tick of the clock, a spurious wake-up, or a call made by another thread. A list that
  ends while the thread is blocked leaves it blocked.
\<close>

datatype event = Tick | Spurious | Call call

datatype 'a outcome = is_Returned: Returned (result: 'a) | Blocks | Fails error

type_synonym time_point = int

definition time_point_max :: time_point where
  "time_point_max = 2 ^ 63 - 1"

text \<open>
  The effect of one event, and whether it unblocks a thread that waits on the condition
  variable of \<open>this\<close>: \<^verbatim>\<open>notify\<close> ends with \<^verbatim>\<open>m_condition.notify_all()\<close>.
\<close>

definition happen :: "sched \<Rightarrow> event \<Rightarrow> machine \<Rightarrow> error + (bool \<times> machine)" where
  "happen this e s =
     (case e of
        Tick \<Rightarrow> Inr (False, s \<lparr> steady_clock := steady_clock s + 1 \<rparr>)
      | Spurious \<Rightarrow> Inr (True, s)
      | Call c \<Rightarrow> and_then (perform c s) (\<lambda>s'. Inr (c = Notify this, s')))"

text \<open>
  \<open>waiting\<close> is the loop \<^verbatim>\<open>while (!m_flag) wait(lock)\<close> seen from inside the wait, with
  the mutex released: an event that wakes the thread makes it take the mutex and test
  the flag, and wait again when the flag is false.
\<close>

fun waiting :: "sched \<Rightarrow> event list \<Rightarrow> machine \<Rightarrow> (machine \<times> event list) outcome" where
  "waiting this [] s = Blocks"
| "waiting this (e # es) s =
     (case happen this e s of
        Inl x \<Rightarrow> Fails x
      | Inr (woken, s') \<Rightarrow>
          if \<not> woken then waiting this es s'
          else (case lock s' of
                  Inl x \<Rightarrow> Fails x
                | Inr s1 \<Rightarrow>
                    if m_flag (schedulers s1 this) then Returned (s1, es)
                    else (case unlock s1 of
                            Inl x \<Rightarrow> Fails x
                          | Inr s2 \<Rightarrow> waiting this es s2)))"

definition cv_wait :: "sched \<Rightarrow> event list \<Rightarrow> machine \<Rightarrow> (machine \<times> event list) outcome" where
  "cv_wait this es s =
     (if m_flag (schedulers s this) then Returned (s, es)
      else (case unlock s of Inl x \<Rightarrow> Fails x | Inr s1 \<Rightarrow> waiting this es s1))"

text \<open>The same for the timed wait: a deadline that has been reached ends the loop.\<close>

fun waiting_until ::
  "sched \<Rightarrow> time_point \<Rightarrow> event list \<Rightarrow> machine \<Rightarrow> (machine \<times> event list) outcome" where
  "waiting_until this deadline [] s =
     (if deadline \<le> steady_clock s
      then (case lock s of Inl x \<Rightarrow> Fails x | Inr s1 \<Rightarrow> Returned (s1, []))
      else Blocks)"
| "waiting_until this deadline (e # es) s =
     (if deadline \<le> steady_clock s
      then (case lock s of Inl x \<Rightarrow> Fails x | Inr s1 \<Rightarrow> Returned (s1, e # es))
      else
        (case happen this e s of
           Inl x \<Rightarrow> Fails x
         | Inr (woken, s') \<Rightarrow>
             if \<not> woken then waiting_until this deadline es s'
             else (case lock s' of
                     Inl x \<Rightarrow> Fails x
                   | Inr s1 \<Rightarrow>
                       if m_flag (schedulers s1 this) then Returned (s1, es)
                       else (case unlock s1 of
                               Inl x \<Rightarrow> Fails x
                             | Inr s2 \<Rightarrow> waiting_until this deadline es s2))))"

definition cv_wait_until ::
  "sched \<Rightarrow> time_point \<Rightarrow> event list \<Rightarrow> machine \<Rightarrow> (machine \<times> event list) outcome" where
  "cv_wait_until this deadline es s =
     (if m_flag (schedulers s this) then Returned (s, es)
      else (case unlock s of
              Inl x \<Rightarrow> Fails x
            | Inr s1 \<Rightarrow> waiting_until this deadline es s1))"

text \<open>
  Both branches end alike: \<^verbatim>\<open>m_flag = false\<close>, and the destructor of \<^verbatim>\<open>lock\<close> releases
  the mutex.
\<close>

definition clear_flag_and_return ::
  "sched \<Rightarrow> (machine \<times> event list) outcome \<Rightarrow> (machine \<times> event list) outcome" where
  "clear_flag_and_return this r =
     (case r of
        Returned (s2, es') \<Rightarrow>
          (case unlock (set_flag this False s2) of
             Inl x \<Rightarrow> Fails x
           | Inr s3 \<Rightarrow> Returned (s3, es'))
      | Blocks \<Rightarrow> Blocks
      | Fails x \<Rightarrow> Fails x)"

text \<open>
  \<^verbatim>\<open>suspend_until\<close> (lines 199 to 211). The result is the state at the return and the
  events that have not happened yet.
\<close>

definition suspend_until ::
  "sched \<Rightarrow> time_point \<Rightarrow> event list \<Rightarrow> machine \<Rightarrow> (machine \<times> event list) outcome" where
  "suspend_until this time_point es s =
     (if time_point_max = time_point
      then (case lock s of
              Inl x \<Rightarrow> Fails x
            | Inr s1 \<Rightarrow> clear_flag_and_return this (cv_wait this es s1))
      else (case lock s of
              Inl x \<Rightarrow> Fails x
            | Inr s1 \<Rightarrow> clear_flag_and_return this (cv_wait_until this time_point es s1)))"

text \<open>The number of clock ticks among the events.\<close>

definition ticks :: "event list \<Rightarrow> nat" where
  "ticks es = length (filter (\<lambda>e. e = Tick) es)"

subsection \<open>Building a pool and dispatching fibers\<close>

text \<open>
  A pool is built by a sequence of constructor calls that all pass the same thread
  count; each entry gives the address of the policy and whether it is the main one.
\<close>

definition register :: "nat \<Rightarrow> sched \<times> bool \<Rightarrow> call" where
  "register thread_count r = Construct thread_count (snd r) (fst r)"

definition workers :: "(sched \<times> bool) list \<Rightarrow> sched list" where
  "workers regs = map fst (filter (\<lambda>r. \<not> snd r) regs)"

text \<open>
  The registry once the workers \<open>ws\<close> have registered, in this order: their addresses
  in the first slots, null in the others.
\<close>

definition registry_after :: "nat \<Rightarrow> sched list \<Rightarrow> sched option list" where
  "registry_after thread_count ws =
     map Some ws @ replicate (thread_count - 1 - length ws) None"

text \<open>
  A pool in operation: the registry is allocated and not empty, every slot holds a
  policy, the counter does not exceed the length of the registry, which is below the
  largest \<^verbatim>\<open>size_t\<close>, and no call is inside the mutex.
\<close>

definition pool_ready :: "machine \<Rightarrow> bool" where
  "pool_ready s \<longleftrightarrow>
     once_flag s \<and> \<not> s_mutex s \<and> s_schedulers s \<noteq> []
     \<and> list_all (\<lambda>slot. slot \<noteq> None) (s_schedulers s)
     \<and> s_current_scheduler s \<le> length (s_schedulers s)
     \<and> length (s_schedulers s) + 1 < 2 ^ 64"

definition dispatch :: "sched \<Rightarrow> ctx \<times> pref \<Rightarrow> call" where
  "dispatch this f = Awakened this (fst f) (snd f)"

text \<open>
  Of the fibers \<open>cs\<close>, numbered from 1, those whose number is congruent to \<open>i\<close> modulo
  \<open>n\<close>.
\<close>

definition round_robin_share :: "nat \<Rightarrow> nat \<Rightarrow> ctx list \<Rightarrow> ctx list" where
  "round_robin_share n i cs =
     map snd (filter (\<lambda>jc. fst jc mod n = i) (zip [1 ..< Suc (length cs)] cs))"

subsection \<open>A pool of one main policy and two workers\<close>

text \<open>
  The concrete states used below: before any constructor has run, and after the main
  policy 0 and the workers 1 and 2 have been constructed with a thread count of 3.
  Context 0 is pinned; every context is owned by policy 0; no fiber has been awakened.
\<close>

definition idle_policy :: thread_locked_scheduler where
  "idle_policy = \<lparr> m_local_queue = [], m_flag = False, m_suspend = False \<rparr>"

definition example_contexts :: "ctx \<Rightarrow> fiber_context" where
  "example_contexts c = \<lparr> pinned = (c = 0), owner = Some 0 \<rparr>"

definition example_boot :: machine where
  "example_boot = static_init (\<lambda>t. idle_policy) example_contexts new_props"

definition example_regs :: "(sched \<times> bool) list" where
  "example_regs = [(0, True), (1, False), (2, False)]"

definition example_ready :: machine where
  "example_ready = projr (run (map (register 3) example_regs) example_boot)"

text \<open>A pool of the main policy alone, constructed with a thread count of 1.\<close>

definition example_solo :: machine where
  "example_solo = projr (run [Construct 1 True 0] example_boot)"

text \<open>Three fibers that have not been awakened yet.\<close>

definition example_fibers :: "(ctx \<times> pref) list" where
  "example_fibers = [(7, 7), (8, 8), (9, 9)]"

text \<open>The pool after the main policy has seen the first wake of fiber 7.\<close>

definition example_dispatched :: machine where
  "example_dispatched = projr (run [Awakened 0 7 7] example_ready)"

text \<open>Then worker 2 has picked fiber 7, which is running there.\<close>

definition example_running :: machine where
  "example_running = projr (run [PickNext 2 2] example_dispatched)"

text \<open>The pool with the pinned context 0 ready on the main policy.\<close>

definition example_pinned_ready :: machine where
  "example_pinned_ready = projr (run [Awakened 0 0 0] example_ready)"




section \<open>Basic facts\<close>

lemma and_then_Inr_iff: "and_then r f = Inr y \<longleftrightarrow> (\<exists>x. r = Inr x \<and> f x = Inr y)"
  by (cases r) (simp_all add: and_then_def)

lemma lock_Inr_iff: "lock s = Inr s' \<longleftrightarrow> \<not> s_mutex s \<and> s' = s \<lparr> s_mutex := True \<rparr>"
  by (auto simp: lock_def)

lemma unlock_Inr_iff: "unlock s = Inr s' \<longleftrightarrow> s_mutex s \<and> s' = s \<lparr> s_mutex := False \<rparr>"
  by (auto simp: unlock_def)

lemmas policy_defs = constructor_def accept_def awakened_def
  pick_next_def has_ready_fibers_def notify_def push_back_def pop_front_def set_flag_def
  detach_def attach_def advance_cursor_def read_target_def Let_def set_previously_awakened_def
  was_previously_awakened_def is_pinned_context_def

subsection \<open>What each operation returns when the mutex is free\<close>

lemma relock: "\<not> s_mutex s \<Longrightarrow> s\<lparr>s_mutex := False\<rparr> = s"
  by (cases s) simp


lemma awakened_pinned:
  "is_pinned_context s c \<Longrightarrow> \<not> s_mutex s \<Longrightarrow> awakened this c p s = Inr (push_back this c s)"
  by (simp add: awakened_def lock_def unlock_def and_then_def push_back_def is_pinned_context_def relock)

lemma awakened_again:
  "\<not> is_pinned_context s c \<Longrightarrow> m_previously_awakened (properties s p) \<Longrightarrow> \<not> s_mutex s
    \<Longrightarrow> awakened this c p s = Inr (push_back this c (detach c s))"
  by (simp add: awakened_def lock_def unlock_def and_then_def push_back_def is_pinned_context_def
       detach_def was_previously_awakened_def relock)

lemma awakened_first:
  assumes "\<not> is_pinned_context s c" "\<not> m_previously_awakened (properties s p)" "\<not> s_mutex s"
    and "s_schedulers s \<noteq> []" "s_current_scheduler s + 1 < 2 ^ 64"
    and "s_schedulers s ! ((s_current_scheduler s + 1) mod length (s_schedulers s)) = Some target"
  shows "awakened this c p s =
     Inr (push_back target c
            (detach c s
              \<lparr> s_current_scheduler := (s_current_scheduler s + 1) mod length (s_schedulers s),
                properties := (properties s) (p := set_previously_awakened (properties s p)) \<rparr>))"
  using assms
  by (simp add: awakened_def lock_def unlock_def and_then_def push_back_def is_pinned_context_def
       detach_def was_previously_awakened_def advance_cursor_def read_target_def accept_def
       size_t_wrap_def Let_def relock)



lemma pick_next_empty:
  "\<not> s_mutex s \<Longrightarrow> m_local_queue (schedulers s this) = [] \<Longrightarrow> pick_next this active s = Inr (None, s)"
  by (simp add: pick_next_def lock_def unlock_def and_then_def relock)

lemma pick_next_front:
  "\<not> s_mutex s \<Longrightarrow> m_local_queue (schedulers s this) = c # rest \<Longrightarrow>
     pick_next this active s =
       Inr (Some c, if \<not> is_pinned_context s c then attach active c (pop_front this s)
                    else pop_front this s)"
  by (simp add: pick_next_def lock_def unlock_def and_then_def pop_front_def is_pinned_context_def attach_def relock)

lemma has_ready_fibers_free:
  "\<not> s_mutex s \<Longrightarrow> has_ready_fibers this s = Inr (m_local_queue (schedulers s this) \<noteq> [], s)"
  by (simp add: has_ready_fibers_def lock_def unlock_def and_then_def relock)

subsection \<open>What sequences of calls preserve\<close>

lemma perform_pinned_frame:
  "perform k s = Inr s' \<Longrightarrow> pinned (contexts s x) \<Longrightarrow> contexts s' x = contexts s x"
  by (cases k)
     (auto simp: and_then_Inr_iff lock_Inr_iff unlock_Inr_iff policy_defs
           split: if_splits list.splits option.splits)

lemma run_pinned_frame:
  "run ks s = Inr s' \<Longrightarrow> pinned (contexts s x) \<Longrightarrow> contexts s' x = contexts s x"
proof (induction ks arbitrary: s)
  case Nil
  then show ?case by simp
next
  case (Cons k ks)
  from Cons.prems(1) obtain s1 where k: "perform k s = Inr s1" and ks: "run ks s1 = Inr s'"
    by (auto simp: and_then_Inr_iff)
  have same: "contexts s1 x = contexts s x"
    using perform_pinned_frame [OF k Cons.prems(2)] .
  with Cons.prems(2) have "pinned (contexts s1 x)" by simp
  from Cons.IH [OF ks this] same show ?case by simp
qed

lemma perform_mutex_free:
  "perform k s = Inr s' \<Longrightarrow> \<not> s_mutex s \<Longrightarrow> \<not> s_mutex s'"
  by (cases k)
     (auto simp: and_then_Inr_iff lock_Inr_iff unlock_Inr_iff policy_defs
           split: if_splits list.splits option.splits)

lemma run_mutex_free:
  "run ks s = Inr s' \<Longrightarrow> \<not> s_mutex s \<Longrightarrow> \<not> s_mutex s'"
  by (induction ks arbitrary: s) (auto simp: and_then_Inr_iff dest: perform_mutex_free)

subsection \<open>The registry\<close>

lemma run_append: "run (xs @ ys) s = and_then (run xs s) (run ys)"
  by (induction xs arbitrary: s) (auto simp: and_then_def split: sum.splits)

lemma perform_registry_length:
  "perform k s = Inr s' \<Longrightarrow> once_flag s \<Longrightarrow>
     once_flag s' \<and> length (s_schedulers s') = length (s_schedulers s)"
  by (cases k)
     (auto simp: and_then_Inr_iff lock_Inr_iff unlock_Inr_iff policy_defs
           split: if_splits list.splits option.splits)

lemma run_registry_length:
  "run ks s = Inr s' \<Longrightarrow> once_flag s \<Longrightarrow>
     once_flag s' \<and> length (s_schedulers s') = length (s_schedulers s)"
proof (induction ks arbitrary: s)
  case Nil
  then show ?case by simp
next
  case (Cons k ks)
  from Cons.prems(1) obtain s1 where k: "perform k s = Inr s1" and ks: "run ks s1 = Inr s'"
    by (auto simp: and_then_Inr_iff)
  from perform_registry_length [OF k Cons.prems(2)] Cons.IH [OF ks] show ?case by simp
qed

lemma perform_keeps_registry:
  "perform k s = Inr s' \<Longrightarrow> (case k of Construct n m t \<Rightarrow> False | _ \<Rightarrow> True) \<Longrightarrow>
     s_schedulers s' = s_schedulers s"
  by (cases k)
     (auto simp: and_then_Inr_iff lock_Inr_iff unlock_Inr_iff policy_defs
           split: if_splits list.splits option.splits)

lemma barrier_count_positive: "0 < barrier_count tc \<Longrightarrow> 1 \<le> tc"
  by (cases tc) (simp_all add: barrier_count_def)

lemma constructor_first:
  assumes "\<not> once_flag s" and "constructor tc m this s = Inr s'"
  shows "once_flag s' \<and> length (s_schedulers s') = tc - 1 \<and> 1 \<le> tc"
proof -
  from assms have "0 < barrier_count tc"
    by (auto simp: constructor_def split: if_splits)
  then have "1 \<le> tc" by (rule barrier_count_positive)
  moreover from assms have "once_flag s' \<and> length (s_schedulers s') = tc - 1"
    by (auto simp: constructor_def Let_def split: if_splits)
  ultimately show ?thesis by simp
qed

lemma awakened_first_needs_registry:
  "\<not> is_pinned_context s c \<Longrightarrow> \<not> m_previously_awakened (properties s p) \<Longrightarrow>
     awakened this c p s = Inr s' \<Longrightarrow> s_schedulers s \<noteq> []"
  by (auto simp: awakened_def and_then_Inr_iff lock_Inr_iff is_pinned_context_def detach_def
        was_previously_awakened_def advance_cursor_def Let_def split: if_splits)

lemma awakened_first_empty_registry:
  "\<not> is_pinned_context s c \<Longrightarrow> \<not> m_previously_awakened (properties s p) \<Longrightarrow>
     \<not> s_mutex s \<Longrightarrow> s_schedulers s = [] \<Longrightarrow> awakened this c p s = Inl ModuloByZero"
  by (simp add: awakened_def and_then_def lock_def is_pinned_context_def detach_def
        was_previously_awakened_def advance_cursor_def Let_def)

subsection \<open>Registration\<close>

lemma registry_after_length:
  "length ws \<le> tc - 1 \<Longrightarrow> length (registry_after tc ws) = tc - 1"
  by (simp add: registry_after_def)

lemma registry_after_snoc:
  assumes "length ws < tc - 1"
  shows "(registry_after tc ws) [length ws := Some w] = registry_after tc (ws @ [w])"
proof -
  from assms obtain k where k: "tc - Suc (length ws) = Suc k"
    by (cases "tc - Suc (length ws)") auto
  then have k': "tc - Suc (Suc (length ws)) = k" by simp
  have "(map Some ws @ None # replicate k None) [length (map Some ws) := Some w]
      = map Some ws @ Some w # replicate k None"
    by (rule list_update_length)
  then show ?thesis by (simp add: registry_after_def k k')
qed

lemma registry_after_nth:
  "i < length ws \<Longrightarrow> registry_after tc ws ! i = Some (ws ! i)"
  by (simp add: registry_after_def nth_append)

lemma registry_after_nth_null:
  "length ws \<le> i \<Longrightarrow> i < tc - 1 \<Longrightarrow> registry_after tc ws ! i = None"
  by (simp add: registry_after_def nth_append)

lemma workers_snoc:
  "workers (rs @ [r]) = (if snd r then workers rs else workers rs @ [fst r])"
  by (simp add: workers_def)

lemma constructor_step:
  assumes inv: "(\<not> once_flag s \<and> ws = [] \<and> s_current_scheduler s = 0)
      \<or> (once_flag s \<and> s_schedulers s = registry_after tc ws \<and> s_current_scheduler s = length ws)"
    and tc: "barrier_count tc \<noteq> 0" "tc < 2 ^ 64"
    and room: "length (if m then ws else ws @ [this]) \<le> tc - 1"
  shows "\<exists>s'. constructor tc m this s = Inr s'
     \<and> once_flag s'
     \<and> s_schedulers s' = registry_after tc (if m then ws else ws @ [this])
     \<and> s_current_scheduler s' = length (if m then ws else ws @ [this])
     \<and> s_mutex s' = s_mutex s \<and> contexts s' = contexts s \<and> properties s' = properties s
     \<and> schedulers s' = (schedulers s)
          (this := \<lparr> m_local_queue = [], m_flag = False, m_suspend = False \<rparr>)"
proof (cases m)
  case True
  with inv tc show ?thesis
    by (auto simp: constructor_def Let_def registry_after_def)
next
  case False
  with room have lt: "length ws < tc - 1" by simp
  have wrap: "size_t_wrap (Suc (length ws)) = Suc (length ws)"
    using lt tc by (simp add: size_t_wrap_def)
  from inv show ?thesis
  proof
    assume fresh: "\<not> once_flag s \<and> ws = [] \<and> s_current_scheduler s = 0"
    have alloc: "replicate (tc - 1) None = registry_after tc []"
      by (simp add: registry_after_def)
    have "0 < length (registry_after tc [])"
      using lt fresh registry_after_length [of "[]" tc] by simp
    then have "registry_after tc [] \<noteq> []" by blast
    with fresh alloc show ?thesis
      using False tc lt wrap registry_after_snoc [of "[]" tc this]
      by (simp add: constructor_def Let_def)
  next
    assume "once_flag s \<and> s_schedulers s = registry_after tc ws \<and> s_current_scheduler s = length ws"
    then show ?thesis
      using False tc lt wrap registry_after_snoc [OF lt, of this] registry_after_length [of ws tc]
      by (simp add: constructor_def Let_def)
  qed
qed

lemma registered:
  assumes ne: "rs \<noteq> []" and tc: "barrier_count tc \<noteq> 0" "tc < 2 ^ 64"
    and room: "length (workers rs) \<le> tc - 1"
  shows "\<exists>s. run (map (register tc) rs) (static_init ss cs ps) = Inr s
     \<and> once_flag s \<and> \<not> s_mutex s
     \<and> s_schedulers s = registry_after tc (workers rs)
     \<and> s_current_scheduler s = length (workers rs)
     \<and> contexts s = cs \<and> properties s = ps
     \<and> (\<forall>t \<in> fst ` set rs. m_local_queue (schedulers s t) = [])"
  using ne room
proof (induction rs rule: rev_nonempty_induct)
  case (single r)
  let ?s = "static_init ss cs ps"
  have inv: "(\<not> once_flag ?s \<and> [] = [] \<and> s_current_scheduler ?s = 0)
      \<or> (once_flag ?s \<and> s_schedulers ?s = registry_after tc [] \<and> s_current_scheduler ?s = length [])"
    by (simp add: static_init_def)
  have room: "length (if snd r then [] else [] @ [fst r]) \<le> tc - 1"
    using single by (cases "snd r") (simp_all add: workers_def)
  from constructor_step [OF inv tc room] obtain s' where
    "constructor tc (snd r) (fst r) ?s = Inr s'" "once_flag s'"
    "s_schedulers s' = registry_after tc (if snd r then [] else [] @ [fst r])"
    "s_current_scheduler s' = length (if snd r then [] else [] @ [fst r])"
    "s_mutex s' = s_mutex ?s" "contexts s' = contexts ?s" "properties s' = properties ?s"
    "schedulers s' = (schedulers ?s)
          (fst r := \<lparr> m_local_queue = [], m_flag = False, m_suspend = False \<rparr>)"
    by blast
  then show ?case
    by (simp add: register_def and_then_def workers_def static_init_def)
next
  case (snoc r rs)
  from snoc.prems have room_rs: "length (workers rs) \<le> tc - 1"
    by (simp add: workers_snoc split: if_splits)
  from snoc.IH [OF room_rs] obtain s where
    s: "run (map (register tc) rs) (static_init ss cs ps) = Inr s" "once_flag s" "\<not> s_mutex s"
      "s_schedulers s = registry_after tc (workers rs)"
      "s_current_scheduler s = length (workers rs)" "contexts s = cs" "properties s = ps"
      "\<forall>t \<in> fst ` set rs. m_local_queue (schedulers s t) = []"
    by blast
  have inv: "(\<not> once_flag s \<and> workers rs = [] \<and> s_current_scheduler s = 0)
      \<or> (once_flag s \<and> s_schedulers s = registry_after tc (workers rs)
          \<and> s_current_scheduler s = length (workers rs))"
    using s by simp
  have room: "length (if snd r then workers rs else workers rs @ [fst r]) \<le> tc - 1"
    using snoc.prems by (simp add: workers_snoc)
  from constructor_step [OF inv tc room] obtain s' where
    s': "constructor tc (snd r) (fst r) s = Inr s'" "once_flag s'"
    "s_schedulers s' = registry_after tc (if snd r then workers rs else workers rs @ [fst r])"
    "s_current_scheduler s' = length (if snd r then workers rs else workers rs @ [fst r])"
    "s_mutex s' = s_mutex s" "contexts s' = contexts s" "properties s' = properties s"
    "schedulers s' = (schedulers s)
          (fst r := \<lparr> m_local_queue = [], m_flag = False, m_suspend = False \<rparr>)"
    by blast
  have "run (map (register tc) (rs @ [r])) (static_init ss cs ps) = Inr s'"
    using s(1) s'(1) by (simp add: run_append and_then_def register_def)
  then show ?case
    using s s' by (auto simp: workers_snoc)
qed

subsection \<open>A pool in operation\<close>

text \<open>
  A pool whose workers have all registered is ready, and stays ready under every call
  that returns.
\<close>

lemma pool_ready_perform:
  assumes "pool_ready s" and "perform k s = Inr s'"
  shows "pool_ready s'"
proof (cases k)
  case (Construct tc m this)
  let ?xs = "s_schedulers s" and ?i = "s_current_scheduler s"
  have slots: "slot \<noteq> None" if "slot \<in> set (?xs [?i := Some this])" for slot
  proof -
    have "set (?xs [?i := Some this]) \<subseteq> insert (Some this) (set ?xs)"
      by (rule set_update_subset_insert)
    with that have "slot = Some this \<or> slot \<in> set ?xs" by auto
    with assms(1) show ?thesis by (auto simp: pool_ready_def list_all_iff)
  qed
  from assms Construct show ?thesis
    using slots
    by (auto simp: pool_ready_def constructor_def Let_def size_t_wrap_def list_all_iff
          split: if_splits)
next
  case (Awakened this c p)
  from assms(1) have n: "0 < length (s_schedulers s)" by (simp add: pool_ready_def)
  have "(size_t_wrap (s_current_scheduler s + 1)) mod length (s_schedulers s)
      \<le> length (s_schedulers s)"
    using n by (simp add: less_imp_le)
  with assms Awakened show ?thesis
    by (auto simp: pool_ready_def and_then_Inr_iff lock_Inr_iff unlock_Inr_iff policy_defs
          split: if_splits option.splits)
qed (use assms in \<open>auto simp: pool_ready_def and_then_Inr_iff lock_Inr_iff unlock_Inr_iff
      policy_defs split: if_splits list.splits option.splits\<close>)

lemma pool_ready_run:
  "pool_ready s \<Longrightarrow> run ks s = Inr s' \<Longrightarrow> pool_ready s'"
  by (induction ks arbitrary: s) (auto simp: and_then_Inr_iff dest: pool_ready_perform)

lemma pool_ready_registered:
  assumes "barrier_count tc \<noteq> 0" and "tc < 2 ^ 64" and "length (workers rs) = tc - 1"
    and "2 \<le> tc" and "run (map (register tc) rs) (static_init ss cs ps) = Inr s"
  shows "pool_ready s"
proof -
  from assms(3,4) have ne: "rs \<noteq> []" by (auto simp: workers_def)
  have room: "length (workers rs) \<le> tc - 1" using assms(3) by simp
  from registered [OF ne assms(1,2) room, of ss cs ps] assms(5)
  have s: "once_flag s" "\<not> s_mutex s" "s_schedulers s = registry_after tc (workers rs)"
    "s_current_scheduler s = length (workers rs)"
    by auto
  from s(3) assms(3) have reg: "s_schedulers s = map Some (workers rs)"
    by (simp add: registry_after_def)
  from reg s(1,2,4) assms(2,3,4) show ?thesis
    by (auto simp: pool_ready_def list_all_iff)
qed


subsection \<open>Round robin\<close>

lemma round_robin_share_Nil: "round_robin_share n i [] = []"
  by (simp add: round_robin_share_def)

lemma round_robin_share_snoc:
  "round_robin_share n i (cs @ [c]) =
     round_robin_share n i cs @ (if Suc (length cs) mod n = i then [c] else [])"
proof -
  have u: "[1 ..< Suc (Suc (length cs))] = [1 ..< Suc (length cs)] @ [Suc (length cs)]"
    by (rule upt_Suc_append) simp
  have "zip ([1 ..< Suc (length cs)] @ [Suc (length cs)]) (cs @ [c])
      = zip [1 ..< Suc (length cs)] cs @ zip [Suc (length cs)] [c]"
    by (rule zip_append) (simp del: upt_Suc)
  then have "zip [1 ..< Suc (length (cs @ [c]))] (cs @ [c])
      = zip [1 ..< Suc (length cs)] cs @ [(Suc (length cs), c)]"
    using u by simp
  then show ?thesis
    unfolding round_robin_share_def by simp
qed

lemma dispatched:
  assumes free: "\<not> s_mutex s0" and reg: "s_schedulers s0 = map Some ws"
    and n: "length ws = n" "1 \<le> n" "n + 1 < 2 ^ 64" and dist: "distinct ws"
    and cur: "s_current_scheduler s0 = n"
    and fresh: "distinct (map snd fs)"
      "\<forall>f \<in> set fs. \<not> pinned (contexts s0 (fst f)) \<and> \<not> m_previously_awakened (properties s0 (snd f))"
  shows "\<exists>s'. run (map (dispatch this) fs) s0 = Inr s'
     \<and> \<not> s_mutex s' \<and> s_schedulers s' = s_schedulers s0
     \<and> s_current_scheduler s' = (if fs = [] then n else length fs mod n)
     \<and> (\<forall>x. pinned (contexts s' x) = pinned (contexts s0 x))
     \<and> (\<forall>q. q \<notin> snd ` set fs \<longrightarrow> properties s' q = properties s0 q)
     \<and> (\<forall>i < n. m_local_queue (schedulers s' (ws ! i))
           = m_local_queue (schedulers s0 (ws ! i)) @ round_robin_share n i (map fst fs))"
  using fresh
proof (induction fs rule: rev_induct)
  case Nil
  show ?case using free cur by (simp add: round_robin_share_Nil)
next
  case (snoc f fs)
  from snoc.prems have fresh_fs: "distinct (map snd fs)"
    "\<forall>f \<in> set fs. \<not> pinned (contexts s0 (fst f)) \<and> \<not> m_previously_awakened (properties s0 (snd f))"
    by simp_all
  from snoc.IH [OF fresh_fs] obtain s' where
    run: "run (map (dispatch this) fs) s0 = Inr s'"
    and free': "\<not> s_mutex s'" and reg': "s_schedulers s' = s_schedulers s0"
    and cur': "s_current_scheduler s' = (if fs = [] then n else length fs mod n)"
    and pin': "\<forall>x. pinned (contexts s' x) = pinned (contexts s0 x)"
    and props': "\<forall>q. q \<notin> snd ` set fs \<longrightarrow> properties s' q = properties s0 q"
    and queues': "\<forall>i < n. m_local_queue (schedulers s' (ws ! i))
           = m_local_queue (schedulers s0 (ws ! i)) @ round_robin_share n i (map fst fs)"
    by blast
  let ?c = "fst f" and ?p = "snd f"
  let ?j = "Suc (length fs) mod n"
  from snoc.prems have new: "?p \<notin> snd ` set fs" by auto
  have h1: "\<not> is_pinned_context s' ?c"
    using snoc.prems(2) pin' by (simp add: is_pinned_context_def)
  have h2: "\<not> m_previously_awakened (properties s' ?p)"
    using snoc.prems(2) props' new by simp
  have h4: "s_schedulers s' \<noteq> []" using reg reg' n by auto
  have le: "s_current_scheduler s' \<le> n" using cur' n by (simp add: less_imp_le)
  have h5: "s_current_scheduler s' + 1 < 2 ^ 64" using le n(3) by simp
  have len: "length (s_schedulers s') = n" using reg reg' n by simp
  have "Suc n mod n = Suc 0 mod n"
    using mod_Suc_eq [of n n] by simp
  then have next_slot: "(s_current_scheduler s' + 1) mod length (s_schedulers s') = ?j"
    using cur' len by (cases "fs = []") (simp_all add: mod_Suc_eq)
  have j: "?j < n" using n by simp
  have h6: "s_schedulers s' ! ((s_current_scheduler s' + 1) mod length (s_schedulers s'))
      = Some (ws ! ?j)"
    using next_slot reg reg' j n by simp
  let ?s'' = "push_back (ws ! ?j) ?c
     (detach ?c s'
       \<lparr> s_current_scheduler := (s_current_scheduler s' + 1) mod length (s_schedulers s'),
         properties := (properties s') (?p := set_previously_awakened (properties s' ?p)) \<rparr>)"
  have step: "awakened this ?c ?p s' = Inr ?s''"
    using h1 h2 free' h4 h5 h6 by (rule awakened_first)
  have run'': "run (map (dispatch this) (fs @ [f])) s0 = Inr ?s''"
    using run step by (simp add: run_append and_then_def dispatch_def)
  have "\<not> s_mutex ?s''" using free' by (simp add: push_back_def detach_def)
  moreover have "s_schedulers ?s'' = s_schedulers s0"
    using reg' by (simp add: push_back_def detach_def)
  moreover have "s_current_scheduler ?s'' = (if fs @ [f] = [] then n else length (fs @ [f]) mod n)"
    using next_slot by (simp add: push_back_def detach_def)
  moreover have "\<forall>x. pinned (contexts ?s'' x) = pinned (contexts s0 x)"
    using pin' by (simp add: push_back_def detach_def)
  moreover have "\<forall>q. q \<notin> snd ` set (fs @ [f]) \<longrightarrow> properties ?s'' q = properties s0 q"
    using props' by (simp add: push_back_def detach_def)
  moreover have "\<forall>i < n. m_local_queue (schedulers ?s'' (ws ! i))
           = m_local_queue (schedulers s0 (ws ! i)) @ round_robin_share n i (map fst (fs @ [f]))"
  proof (intro allI impI)
    fix i assume i: "i < n"
    have same: "ws ! i = ws ! ?j \<longleftrightarrow> i = ?j"
      using dist i j n by (simp add: nth_eq_iff_index_eq)
    show "m_local_queue (schedulers ?s'' (ws ! i))
           = m_local_queue (schedulers s0 (ws ! i)) @ round_robin_share n i (map fst (fs @ [f]))"
      using queues' i same
      by (auto simp: push_back_def detach_def round_robin_share_snoc)
  qed
  ultimately show ?case using run'' by blast
qed

lemma round_robin_share_0_short:
  "length cs < n \<Longrightarrow> round_robin_share n 0 cs = []"
proof (induction cs rule: rev_induct)
  case Nil
  show ?case by (simp add: round_robin_share_Nil)
next
  case (snoc c cs)
  then show ?case by (simp add: round_robin_share_snoc)
qed

lemma round_robin_share_0_full:
  assumes "length cs = n" and "1 \<le> n"
  shows "round_robin_share n 0 cs = [last cs]"
proof -
  from assms obtain bs b where cs: "cs = bs @ [b]"
    by (cases cs rule: rev_cases) auto
  with assms have "length bs < n" by simp
  from round_robin_share_0_short [OF this] cs assms show ?thesis
    by (simp add: round_robin_share_snoc)
qed

lemma round_robin_share_first:
  "2 \<le> n \<Longrightarrow> round_robin_share n 1 [c] = [c]"
  using round_robin_share_snoc [of n 1 "[]" c] by (simp add: round_robin_share_Nil)

lemma workers_take_prefix:
  "i < length (workers (take k rs)) \<Longrightarrow> workers (take k rs) ! i = workers rs ! i"
proof -
  assume i: "i < length (workers (take k rs))"
  have "workers rs = workers (take k rs) @ workers (drop k rs)"
    unfolding workers_def by (simp flip: map_append filter_append)
  then show ?thesis using i by (simp add: nth_append)
qed

subsection \<open>The awakened mark never goes back\<close>

lemma perform_props_mono:
  "perform c s = Inr s' \<Longrightarrow> m_previously_awakened (properties s q)
     \<Longrightarrow> m_previously_awakened (properties s' q)"
  by (cases c)
     (auto simp: and_then_Inr_iff lock_Inr_iff unlock_Inr_iff policy_defs
           split: if_splits list.splits option.splits)

lemma run_props_mono:
  "run cs s = Inr s' \<Longrightarrow> m_previously_awakened (properties s q)
     \<Longrightarrow> m_previously_awakened (properties s' q)"
  by (induction cs arbitrary: s) (auto simp: and_then_Inr_iff dest: perform_props_mono)

lemma happen_props_mono:
  "happen this e s = Inr (w, s') \<Longrightarrow> m_previously_awakened (properties s q)
     \<Longrightarrow> m_previously_awakened (properties s' q)"
  by (cases e) (auto simp: happen_def and_then_Inr_iff dest: perform_props_mono)

lemma waiting_props_mono:
  "waiting this es s = Returned (s', es') \<Longrightarrow> m_previously_awakened (properties s q)
     \<Longrightarrow> m_previously_awakened (properties s' q)"
proof (induction es arbitrary: s)
  case Nil
  then show ?case by simp
next
  case (Cons e es)
  from Cons.prems(1) obtain w s1 where h: "happen this e s = Inr (w, s1)"
    by (auto split: sum.splits)
  have p1: "m_previously_awakened (properties s1 q)"
    using happen_props_mono [OF h Cons.prems(2)] .
  show ?case
  proof (cases w)
    case False
    with Cons.prems(1) h have "waiting this es s1 = Returned (s', es')" by simp
    then show ?thesis using Cons.IH p1 by blast
  next
    case True
    with Cons.prems(1) h show ?thesis
      using p1 Cons.IH [of "s1\<lparr>s_mutex := True\<rparr>\<lparr>s_mutex := False\<rparr>"]
      by (auto simp: lock_Inr_iff unlock_Inr_iff split: sum.splits if_splits)
  qed
qed

lemma waiting_until_props_mono:
  "waiting_until this d es s = Returned (s', es') \<Longrightarrow> m_previously_awakened (properties s q)
     \<Longrightarrow> m_previously_awakened (properties s' q)"
proof (induction es arbitrary: s)
  case Nil
  then show ?case by (auto simp: lock_Inr_iff split: sum.splits if_splits)
next
  case (Cons e es)
  show ?case
  proof (cases "d \<le> steady_clock s")
    case True
    with Cons.prems show ?thesis by (auto simp: lock_Inr_iff split: sum.splits)
  next
    case early: False
    from Cons.prems(1) early obtain w s1 where h: "happen this e s = Inr (w, s1)"
      by (auto split: sum.splits)
    have p1: "m_previously_awakened (properties s1 q)"
      using happen_props_mono [OF h Cons.prems(2)] .
    show ?thesis
    proof (cases w)
      case False
      with Cons.prems(1) h early have "waiting_until this d es s1 = Returned (s', es')"
        by simp
      then show ?thesis using Cons.IH p1 by blast
    next
      case True
      with Cons.prems(1) h early show ?thesis
        using p1 Cons.IH [of "s1\<lparr>s_mutex := True\<rparr>\<lparr>s_mutex := False\<rparr>"]
        by (auto simp: lock_Inr_iff unlock_Inr_iff split: sum.splits if_splits)
    qed
  qed
qed

lemma suspend_until_props_mono:
  assumes "suspend_until this tp es s = Returned (s', es')"
    and "m_previously_awakened (properties s q)"
  shows "m_previously_awakened (properties s' q)"
proof -
  let ?s1 = "s\<lparr>s_mutex := True\<rparr>"
  let ?w = "if time_point_max = tp then cv_wait this es ?s1 else cv_wait_until this tp es ?s1"
  from assms(1) have r: "clear_flag_and_return this ?w = Returned (s', es')"
    by (auto simp: suspend_until_def lock_def split: if_splits)
  from r obtain s2 where w: "?w = Returned (s2, es')"
    and s': "unlock (set_flag this False s2) = Inr s'"
    by (auto simp: clear_flag_and_return_def split: outcome.splits sum.splits)
  have "m_previously_awakened (properties s2 q)"
  proof (cases "m_flag (schedulers ?s1 this)")
    case True
    with w have "s2 = ?s1" by (simp add: cv_wait_def cv_wait_until_def split: if_splits)
    with assms(2) show ?thesis by simp
  next
    case False
    let ?s0 = "?s1\<lparr>s_mutex := False\<rparr>"
    have p0: "m_previously_awakened (properties ?s0 q)" using assms(2) by simp
    from False w have "waiting this es ?s0 = Returned (s2, es')
        \<or> waiting_until this tp es ?s0 = Returned (s2, es')"
      by (simp add: cv_wait_def cv_wait_until_def unlock_def split: if_splits)
    then show ?thesis
      using waiting_props_mono [OF _ p0] waiting_until_props_mono [OF _ p0] by blast
  qed
  with s' show ?thesis by (auto simp: unlock_Inr_iff set_flag_def)
qed

subsection \<open>Waiting\<close>

lemma perform_clock:
  "perform k s = Inr s' \<Longrightarrow> steady_clock s' = steady_clock s"
  by (cases k)
     (auto simp: and_then_Inr_iff lock_Inr_iff unlock_Inr_iff policy_defs
           split: if_splits list.splits option.splits)

lemma perform_flag_only_notify:
  "perform k s = Inr s' \<Longrightarrow> \<not> m_flag (schedulers s t) \<Longrightarrow> m_flag (schedulers s' t)
     \<Longrightarrow> k = Notify t"
  by (cases k)
     (auto simp: and_then_Inr_iff lock_Inr_iff unlock_Inr_iff policy_defs
           split: if_splits list.splits option.splits)

lemma happen_flag_only_notify:
  "happen this e s = Inr (w, s') \<Longrightarrow> \<not> m_flag (schedulers s t) \<Longrightarrow> m_flag (schedulers s' t)
     \<Longrightarrow> e = Call (Notify t)"
  by (cases e) (auto simp: happen_def and_then_Inr_iff dest: perform_flag_only_notify)

lemma happen_clock:
  "happen this e s = Inr (w, s') \<Longrightarrow>
     steady_clock s' = steady_clock s + (if e = Tick then 1 else 0)"
  by (cases e) (auto simp: happen_def and_then_Inr_iff dest: perform_clock)

lemma waiting_returns_flag:
  "waiting this es s = Returned (s2, es') \<Longrightarrow> m_flag (schedulers s2 this) \<and> s_mutex s2"
proof (induction es arbitrary: s)
  case Nil
  then show ?case by simp
next
  case (Cons e es)
  from Cons.prems obtain w s1 where h: "happen this e s = Inr (w, s1)"
    by (auto split: sum.splits)
  show ?case
  proof (cases w)
    case False
    with Cons.prems h have "waiting this es s1 = Returned (s2, es')" by simp
    then show ?thesis by (rule Cons.IH)
  next
    case True
    with Cons.prems h show ?thesis
      using Cons.IH [of "s1\<lparr>s_mutex := True\<rparr>\<lparr>s_mutex := False\<rparr>"]
      by (auto simp: lock_Inr_iff unlock_Inr_iff split: sum.splits if_splits)
  qed
qed

lemma waiting_suffix:
  "waiting this es s = Returned (s2, es') \<Longrightarrow> \<exists>pre. es = pre @ es' \<and> pre \<noteq> []"
proof (induction es arbitrary: s)
  case Nil
  then show ?case by simp
next
  case (Cons e es)
  from Cons.prems obtain w s1 where h: "happen this e s = Inr (w, s1)"
    by (auto split: sum.splits)
  have later: "\<exists>pre. e # es = pre @ es' \<and> pre \<noteq> []"
    if "waiting this es u = Returned (s2, es')" for u
  proof -
    from Cons.IH [OF that] obtain pre where "es = pre @ es'" by blast
    then have "e # es = (e # pre) @ es'" by simp
    then show ?thesis by blast
  qed
  have now: "\<exists>pre. e # es = pre @ es' \<and> pre \<noteq> []" if "es' = es"
    using that by (intro exI [of _ "[e]"]) simp
  show ?case
  proof (cases w)
    case False
    with Cons.prems h have "waiting this es s1 = Returned (s2, es')" by simp
    then show ?thesis by (rule later)
  next
    case True
    with Cons.prems h show ?thesis
      using later [of "s1\<lparr>s_mutex := True\<rparr>\<lparr>s_mutex := False\<rparr>"] now
      by (auto simp: lock_Inr_iff unlock_Inr_iff split: sum.splits if_splits)
  qed
qed

lemma waiting_notified:
  "waiting this es s = Returned (s2, es') \<Longrightarrow> \<not> m_flag (schedulers s this)
     \<Longrightarrow> \<exists>pre. es = pre @ es' \<and> Call (Notify this) \<in> set pre"
proof (induction es arbitrary: s)
  case Nil
  then show ?case by simp
next
  case (Cons e es)
  from Cons.prems(1) obtain w s1 where h: "happen this e s = Inr (w, s1)"
    by (auto split: sum.splits)
  show ?case
  proof (cases "e = Call (Notify this)")
    case True
    from waiting_suffix [OF Cons.prems(1)] obtain pre where
      pre: "e # es = pre @ es'" "pre \<noteq> []" by blast
    then have "hd pre = e" by (cases pre) auto
    with pre(2) True have "Call (Notify this) \<in> set pre" by (cases pre) auto
    with pre(1) show ?thesis by blast
  next
    case False
    with happen_flag_only_notify [OF h Cons.prems(2)]
    have quiet: "\<not> m_flag (schedulers s1 this)" by blast
    have later: "\<exists>pre. e # es = pre @ es' \<and> Call (Notify this) \<in> set pre"
      if "waiting this es u = Returned (s2, es')" "\<not> m_flag (schedulers u this)" for u
    proof -
      from Cons.IH [OF that] obtain pre where
        "es = pre @ es'" "Call (Notify this) \<in> set pre" by blast
      then have "e # es = (e # pre) @ es' \<and> Call (Notify this) \<in> set (e # pre)" by simp
      then show ?thesis by blast
    qed
    show ?thesis
    proof (cases w)
      case False
      with Cons.prems h have "waiting this es s1 = Returned (s2, es')" by simp
      then show ?thesis using quiet by (rule later)
    next
      case True
      with Cons.prems(1) h quiet show ?thesis
        using later [of "s1\<lparr>s_mutex := True\<rparr>\<lparr>s_mutex := False\<rparr>"]
        by (auto simp: lock_Inr_iff unlock_Inr_iff split: sum.splits if_splits)
    qed
  qed
qed

lemma waiting_until_locked:
  "waiting_until this d es s = Returned (s2, es') \<Longrightarrow>
     s_mutex s2 \<and> steady_clock s2 \<le> max (steady_clock s) d"
proof (induction es arbitrary: s)
  case Nil
  then show ?case by (auto simp: lock_Inr_iff split: sum.splits if_splits)
next
  case (Cons e es)
  show ?case
  proof (cases "d \<le> steady_clock s")
    case True
    with Cons.prems show ?thesis by (auto simp: lock_Inr_iff split: sum.splits)
  next
    case early: False
    from Cons.prems early obtain w s1 where h: "happen this e s = Inr (w, s1)"
      by (auto split: sum.splits)
    from happen_clock [OF h] early have c1: "max (steady_clock s1) d \<le> max (steady_clock s) d"
      by (auto split: if_splits)
    have later: "s_mutex s2 \<and> steady_clock s2 \<le> max (steady_clock s) d"
      if "waiting_until this d es u = Returned (s2, es')" "steady_clock u = steady_clock s1" for u
      using Cons.IH [OF that(1)] that(2) c1 by (auto simp: max_def split: if_splits)
    show ?thesis
    proof (cases w)
      case False
      with Cons.prems h early have "waiting_until this d es s1 = Returned (s2, es')" by simp
      then show ?thesis by (rule later) simp
    next
      case True
      with Cons.prems h early show ?thesis
        using later [of "s1\<lparr>s_mutex := True\<rparr>\<lparr>s_mutex := False\<rparr>"] c1
        by (auto simp: lock_Inr_iff unlock_Inr_iff split: sum.splits if_splits)
    qed
  qed
qed

lemma waiting_until_due:
  "d \<le> steady_clock s \<Longrightarrow> \<not> s_mutex s \<Longrightarrow>
     waiting_until this d es s = Returned (s \<lparr> s_mutex := True \<rparr>, es)"
  by (cases es) (simp_all add: lock_def)

lemma waiting_until_live:
  "d - steady_clock s \<le> int (ticks es) \<Longrightarrow> waiting_until this d es s \<noteq> Blocks"
proof (induction es arbitrary: s)
  case Nil
  then show ?case by (auto simp: ticks_def split: sum.splits)
next
  case (Cons e es)
  show ?case
  proof (cases "d \<le> steady_clock s")
    case True
    then show ?thesis by (auto split: sum.splits)
  next
    case early: False
    show ?thesis
    proof (cases "happen this e s")
      case (Inl x)
      with early show ?thesis by simp
    next
      case (Inr r)
      then obtain w s1 where h: "happen this e s = Inr (w, s1)" by (cases r) auto
      from happen_clock [OF h] Cons.prems
      have enough: "d - steady_clock s1 \<le> int (ticks es)"
        by (auto simp: ticks_def split: if_splits)
      have later: "waiting_until this d es u \<noteq> Blocks" if "steady_clock u = steady_clock s1" for u
        using Cons.IH [of u] enough that by simp
      show ?thesis
        using early h later [of s1] later [of "s1\<lparr>s_mutex := True\<rparr>\<lparr>s_mutex := False\<rparr>"]
        by (auto simp: lock_Inr_iff unlock_Inr_iff split: sum.splits if_splits)
    qed
  qed
qed

lemma suspend_until_Returned:
  assumes "suspend_until this tp es s = Returned (s', es')"
  obtains s2 where "\<not> s_mutex s"
    and "(if time_point_max = tp then cv_wait this es (s \<lparr> s_mutex := True \<rparr>)
          else cv_wait_until this tp es (s \<lparr> s_mutex := True \<rparr>)) = Returned (s2, es')"
    and "unlock (set_flag this False s2) = Inr s'"
proof -
  let ?s1 = "s\<lparr>s_mutex := True\<rparr>"
  let ?w = "if time_point_max = tp then cv_wait this es ?s1 else cv_wait_until this tp es ?s1"
  from assms have free: "\<not> s_mutex s"
    and r: "clear_flag_and_return this ?w = Returned (s', es')"
    by (auto simp: suspend_until_def lock_def split: if_splits)
  from r obtain s2 where "?w = Returned (s2, es')" "unlock (set_flag this False s2) = Inr s'"
    by (auto simp: clear_flag_and_return_def split: outcome.splits sum.splits)
  with free that show ?thesis by blast
qed

lemma suspend_until_clears:
  "suspend_until this tp es s = Returned (s', es') \<Longrightarrow> \<not> m_flag (schedulers s' this)"
  by (erule suspend_until_Returned) (auto simp: unlock_Inr_iff set_flag_def)

lemma cv_wait_observes:
  "cv_wait this es s1 = Returned (s2, es') \<Longrightarrow> m_flag (schedulers s2 this)"
  by (auto simp: cv_wait_def split: if_splits sum.splits dest: waiting_returns_flag)

lemma suspend_forever_observes:
  assumes "suspend_until this time_point_max es s = Returned (s', es')"
  shows "\<exists>s2. cv_wait this es (s \<lparr> s_mutex := True \<rparr>) = Returned (s2, es')
     \<and> m_flag (schedulers s2 this) \<and> unlock (set_flag this False s2) = Inr s'"
  using assms by (elim suspend_until_Returned) (auto dest: cv_wait_observes)

lemma suspend_forever_notified:
  assumes "suspend_until this time_point_max es s = Returned (s', es')"
    and "\<not> m_flag (schedulers s this)"
  shows "\<exists>pre. es = pre @ es' \<and> Call (Notify this) \<in> set pre"
proof -
  from assms(1) obtain s2 where
    w: "cv_wait this es (s \<lparr> s_mutex := True \<rparr>) = Returned (s2, es')"
    by (elim suspend_until_Returned) auto
  let ?s0 = "s\<lparr>s_mutex := True\<rparr>\<lparr>s_mutex := False\<rparr>"
  from w assms(2) have "waiting this es ?s0 = Returned (s2, es')"
    by (simp add: cv_wait_def unlock_def)
  moreover have "\<not> m_flag (schedulers ?s0 this)" using assms(2) by simp
  ultimately show ?thesis by (rule waiting_notified)
qed

lemma suspend_deadline_clock:
  assumes "tp \<noteq> time_point_max" and "suspend_until this tp es s = Returned (s', es')"
  shows "steady_clock s' \<le> max (steady_clock s) tp"
proof -
  from assms obtain s2 where
    w: "cv_wait_until this tp es (s \<lparr> s_mutex := True \<rparr>) = Returned (s2, es')"
    and s': "unlock (set_flag this False s2) = Inr s'"
    by (elim suspend_until_Returned) (auto split: if_splits)
  from s' have c: "steady_clock s' = steady_clock s2"
    by (auto simp: unlock_Inr_iff set_flag_def)
  show ?thesis
  proof (cases "m_flag (schedulers s this)")
    case True
    with w have "s2 = s \<lparr> s_mutex := True \<rparr>" by (simp add: cv_wait_until_def)
    with c show ?thesis by simp
  next
    case False
    let ?s0 = "s\<lparr>s_mutex := True\<rparr>\<lparr>s_mutex := False\<rparr>"
    from False w have "waiting_until this tp es ?s0 = Returned (s2, es')"
      by (simp add: cv_wait_until_def unlock_def)
    from waiting_until_locked [OF this] c show ?thesis by simp
  qed
qed

lemma suspend_deadline_live:
  assumes "tp \<noteq> time_point_max" and "\<not> s_mutex s"
    and "tp - steady_clock s \<le> int (ticks es)"
  shows "suspend_until this tp es s \<noteq> Blocks"
proof -
  let ?s0 = "s\<lparr>s_mutex := True\<rparr>\<lparr>s_mutex := False\<rparr>"
  have "waiting_until this tp es ?s0 \<noteq> Blocks"
    using assms(3) by (intro waiting_until_live) simp
  then have "cv_wait_until this tp es (s \<lparr> s_mutex := True \<rparr>) \<noteq> Blocks"
    by (simp add: cv_wait_until_def unlock_def)
  then show ?thesis
    using assms(1,2)
    by (auto simp: suspend_until_def lock_def clear_flag_and_return_def
          split: outcome.splits sum.splits)
qed

lemma suspend_deadline_due:
  assumes "tp \<noteq> time_point_max" and "\<not> s_mutex s" and "tp \<le> steady_clock s"
  shows "suspend_until this tp es s = Returned (set_flag this False s, es)"
proof -
  let ?s1 = "s \<lparr> s_mutex := True \<rparr>"
  have "waiting_until this tp es (?s1 \<lparr> s_mutex := False \<rparr>) = Returned (?s1, es)"
    using waiting_until_due [of tp "?s1 \<lparr> s_mutex := False \<rparr>" this es] assms(3) by simp
  then have "cv_wait_until this tp es ?s1 = Returned (?s1, es)"
    by (simp add: cv_wait_until_def unlock_def)
  moreover have "unlock (set_flag this False ?s1) = Inr (set_flag this False s)"
    using assms(2) by (simp add: unlock_def set_flag_def relock)
  ultimately show ?thesis
    using assms(1,2)
    by (simp add: suspend_until_def lock_def clear_flag_and_return_def)
qed

section \<open>The claims\<close>




text \<open>
  C2, as the code has it. A later wake of a context that is not pinned (the property is
  already marked) also detaches the context: \<^verbatim>\<open>ctx->detach()\<close> stands before the test
  of the property. The context is then appended to the queue of the calling policy, and
  nothing else changes: the registry, the cursor, the properties, the flags, the queues
  of the other policies and the other contexts are as before.
\<close>

theorem later_wake_detaches_and_enqueues_locally:
  assumes "\<not> is_pinned_context s c" and "m_previously_awakened (properties s p)"
    and "\<not> s_mutex s"
  shows "\<exists>s'. awakened this c p s = Inr s'
    \<and> s' = push_back this c (detach c s)
    \<and> owner (contexts s' c) = None
    \<and> pinned (contexts s' c) = pinned (contexts s c)
    \<and> m_local_queue (schedulers s' this) = m_local_queue (schedulers s this) @ [c]
    \<and> (\<forall>x. x \<noteq> c \<longrightarrow> contexts s' x = contexts s x)
    \<and> (\<forall>t. t \<noteq> this \<longrightarrow> schedulers s' t = schedulers s t)
    \<and> m_flag (schedulers s' this) = m_flag (schedulers s this)
    \<and> properties s' = properties s
    \<and> s_current_scheduler s' = s_current_scheduler s
    \<and> s_schedulers s' = s_schedulers s
    \<and> s_mutex s' = s_mutex s"
  using awakened_again [OF assms, of this]
  by (simp add: push_back_def detach_def)

theorem later_wake_detaches_and_enqueues_locally_witness:
  "\<not> is_pinned_context example_running 7
   \<and> m_previously_awakened (properties example_running 7)
   \<and> \<not> s_mutex example_running
   \<and> (\<exists>s'. awakened 2 7 7 example_running = Inr s'
        \<and> owner (contexts s' 7) = None
        \<and> m_local_queue (schedulers s' 2) = [7])"
proof -
  have h1: "\<not> is_pinned_context example_running 7" by code_simp
  have h2: "m_previously_awakened (properties example_running 7)" by code_simp
  have h3: "\<not> s_mutex example_running" by code_simp
  have v: "m_local_queue (schedulers example_running 2) = []" by code_simp
  from later_wake_detaches_and_enqueues_locally [OF h1 h2 h3, of 2]
  show ?thesis using h1 h2 h3 unfolding v by auto
qed

text \<open>
  C2 as stated fails: fiber 7 runs on worker 2, which owns it; the fiber is marked as
  awakened before; its next wake on worker 2 leaves it without an owner.
\<close>

theorem later_wake_keeps_owner_counterexample:
  "\<not> is_pinned_context example_running 7
   \<and> m_previously_awakened (properties example_running 7)
   \<and> owner (contexts example_running 7) = Some 2
   \<and> \<not> isl (awakened 2 7 7 example_running)
   \<and> owner (contexts (projr (awakened 2 7 7 example_running)) 7) = None
   \<and> contexts (projr (awakened 2 7 7 example_running)) 7 \<noteq> contexts example_running 7"
  by code_simp

text \<open>
  C3. A pinned context that is awakened is appended to the queue of the policy that is
  notified, whatever its property says, and nothing else changes. \<^verbatim>\<open>pick_next\<close> does not
  attach a pinned context. No sequence of calls changes the owner of a pinned context.
\<close>

theorem pinned_context_stays_local:
  "(is_pinned_context s c \<and> \<not> s_mutex s \<longrightarrow>
      awakened this c p s = Inr (push_back this c s)
      \<and> m_local_queue (schedulers (push_back this c s) this)
          = m_local_queue (schedulers s this) @ [c]
      \<and> contexts (push_back this c s) = contexts s
      \<and> properties (push_back this c s) = properties s)
   \<and> (is_pinned_context t c \<and> pick_next that active t = Inr (r, t') \<longrightarrow>
        contexts t' c = contexts t c)
   \<and> (is_pinned_context u c \<and> run ks u = Inr u' \<longrightarrow>
        owner (contexts u' c) = owner (contexts u c) \<and> is_pinned_context u' c)"
proof -
  have "contexts t' c = contexts t c"
    if "is_pinned_context t c" and "pick_next that active t = Inr (r, t')"
  proof -
    from that(2) have "perform (PickNext that active) t = Inr t'"
      by (simp add: and_then_def)
    from perform_pinned_frame [OF this] that(1) show ?thesis
      by (simp add: is_pinned_context_def)
  qed
  moreover have "owner (contexts u' c) = owner (contexts u c) \<and> is_pinned_context u' c"
    if "is_pinned_context u c" and "run ks u = Inr u'"
    using run_pinned_frame [OF that(2), of c] that(1) by (simp add: is_pinned_context_def)
  ultimately show ?thesis
    by (auto simp: awakened_pinned) (simp_all add: push_back_def)
qed

theorem pinned_context_stays_local_witness:
  "is_pinned_context example_ready 0 \<and> \<not> s_mutex example_ready
   \<and> is_pinned_context example_pinned_ready 0
   \<and> pick_next 0 0 example_pinned_ready
       = Inr (fst (projr (pick_next 0 0 example_pinned_ready)),
              snd (projr (pick_next 0 0 example_pinned_ready)))
   \<and> run [Awakened 0 0 0, PickNext 0 0, Awakened 0 0 0] example_ready
       = Inr (projr (run [Awakened 0 0 0, PickNext 0 0, Awakened 0 0 0] example_ready))
   \<and> awakened 0 0 0 example_ready = Inr (push_back 0 0 example_ready)
   \<and> contexts (snd (projr (pick_next 0 0 example_pinned_ready))) 0
       = contexts example_pinned_ready 0
   \<and> owner (contexts
        (projr (run [Awakened 0 0 0, PickNext 0 0, Awakened 0 0 0] example_ready)) 0)
       = owner (contexts example_ready 0)"
proof -
  let ?pick = "pick_next 0 0 example_pinned_ready"
  let ?ks = "[Awakened 0 0 0, PickNext 0 0, Awakened 0 0 0]"
  have h1: "is_pinned_context example_ready 0" by code_simp
  have h2: "\<not> s_mutex example_ready" by code_simp
  have h3: "is_pinned_context example_pinned_ready 0" by code_simp
  have "\<not> isl ?pick" by code_simp
  then have h4: "?pick = Inr (fst (projr ?pick), snd (projr ?pick))" by simp
  have "\<not> isl (run ?ks example_ready)" by code_simp
  then have h5: "run ?ks example_ready = Inr (projr (run ?ks example_ready))" by simp
  show ?thesis
    using h1 h2 h3 h4 h5
      pinned_context_stays_local [of example_ready 0 0 0 example_pinned_ready 0 0
        "fst (projr ?pick)" "snd (projr ?pick)" example_ready ?ks
        "projr (run ?ks example_ready)"]
    by blast
qed

text \<open>
  C4, as the code has it. The first constructor call allocates the registry with
  \<^verbatim>\<open>thread_count - 1\<close> slots, one less than the thread count, since the main policy
  takes no slot; the length never changes afterwards. The thread count is one the
  barrier accepts. While the pool is constructed, by calls that pass the same thread
  count, with no more workers than slots, the registry holds after every call the
  workers constructed so far, in their order, in its first slots, and null in the
  others, and the counter is their number: slot \<open>i\<close> is written once, by the \<open>i\<close>-th
  worker to register (counted from 0). No call other than a constructor writes a slot.
\<close>

theorem registry_filled_in_order:
  assumes "barrier_count thread_count \<noteq> 0" and "thread_count < 2 ^ 64"
    and "1 \<le> k" and "k \<le> length rs"
    and "length (workers (take k rs)) \<le> thread_count - 1"
  shows "\<exists>s. run (map (register thread_count) (take k rs)) (static_init ss cs ps) = Inr s
     \<and> length (s_schedulers s) = thread_count - 1
     \<and> s_schedulers s = registry_after thread_count (workers (take k rs))
     \<and> (\<forall>i < length (workers (take k rs)). s_schedulers s ! i = Some (workers rs ! i))
     \<and> (\<forall>i. length (workers (take k rs)) \<le> i \<and> i < thread_count - 1 \<longrightarrow>
            s_schedulers s ! i = None)
     \<and> s_current_scheduler s = length (workers (take k rs))
     \<and> (\<forall>ks s'. run ks s = Inr s' \<longrightarrow> length (s_schedulers s') = thread_count - 1)
     \<and> (\<forall>c u u'. (case c of Construct n m t \<Rightarrow> False | _ \<Rightarrow> True) \<and> perform c u = Inr u' \<longrightarrow>
            s_schedulers u' = s_schedulers u)"
proof -
  from assms(3,4) have ne: "take k rs \<noteq> []" by auto
  from registered [OF ne assms(1,2,5), of ss cs ps] obtain s where
    s: "run (map (register thread_count) (take k rs)) (static_init ss cs ps) = Inr s"
      "once_flag s" "s_schedulers s = registry_after thread_count (workers (take k rs))"
      "s_current_scheduler s = length (workers (take k rs))"
    by blast
  have len: "length (s_schedulers s) = thread_count - 1"
    using s(3) registry_after_length [OF assms(5)] by simp
  have "\<forall>i < length (workers (take k rs)). s_schedulers s ! i = Some (workers rs ! i)"
    using s(3) by (simp add: registry_after_nth workers_take_prefix)
  moreover have "\<forall>i. length (workers (take k rs)) \<le> i \<and> i < thread_count - 1 \<longrightarrow>
            s_schedulers s ! i = None"
    using s(3) by (simp add: registry_after_nth_null)
  moreover have "\<forall>ks s'. run ks s = Inr s' \<longrightarrow> length (s_schedulers s') = thread_count - 1"
    using run_registry_length [OF _ s(2)] len by auto
  moreover have "\<forall>c u u'. (case c of Construct n m t \<Rightarrow> False | _ \<Rightarrow> True) \<and> perform c u = Inr u' \<longrightarrow>
            s_schedulers u' = s_schedulers u"
    using perform_keeps_registry by blast
  ultimately show ?thesis using s len by blast
qed

theorem registry_filled_in_order_witness:
  "barrier_count 3 \<noteq> 0 \<and> (3::nat) < 2 ^ 64 \<and> (1::nat) \<le> 2 \<and> 2 \<le> length example_regs
   \<and> length (workers (take 2 example_regs)) \<le> 3 - 1
   \<and> (\<exists>s. run (map (register 3) (take 2 example_regs)) example_boot = Inr s
         \<and> length (s_schedulers s) = 2
         \<and> s_schedulers s = [Some 1, None]
         \<and> s_current_scheduler s = 1)"
proof -
  have h1: "barrier_count 3 \<noteq> 0" by code_simp
  have h2: "(3::nat) < 2 ^ 64" and h3: "(1::nat) \<le> 2"
    by simp_all
  have h4: "2 \<le> length example_regs" by code_simp
  have h5: "length (workers (take 2 example_regs)) \<le> 3 - 1" by code_simp
  have v1: "registry_after 3 (workers (take 2 example_regs)) = [Some 1, None]" by code_simp
  have v2: "length (workers (take 2 example_regs)) = 1" by code_simp
  from registry_filled_in_order [OF h1 h2 h3 h4 h5, of "\<lambda>t. idle_policy" example_contexts new_props]
  obtain s where
    "run (map (register 3) (take 2 example_regs)) example_boot = Inr s"
    "length (s_schedulers s) = 3 - 1"
    "s_schedulers s = registry_after 3 (workers (take 2 example_regs))"
    "s_current_scheduler s = length (workers (take 2 example_regs))"
    unfolding example_boot_def by blast
  then show ?thesis using h1 h4 h5 unfolding v1 v2 by auto
qed

text \<open>
  C4 as stated fails: the pool constructed with a thread count of 3 has a registry of
  length 2.
\<close>

theorem registry_length_counterexample:
  "\<not> isl (run (map (register 3) example_regs) example_boot)
   \<and> length (s_schedulers (projr (run (map (register 3) example_regs) example_boot))) = 2
   \<and> length (s_schedulers (projr (run (map (register 3) example_regs) example_boot))) \<noteq> 3"
  by code_simp




text \<open>
  C6. Called with the mutex free, \<^verbatim>\<open>pick_next\<close> returns no context exactly when the
  queue of the policy is empty, and then leaves the state as it is; otherwise it returns
  the front of the queue and the queue keeps the rest. \<^verbatim>\<open>has_ready_fibers\<close> returns
  whether the queue is non-empty and leaves the state as it is.
\<close>

theorem pick_next_pops_front:
  assumes "\<not> s_mutex s"
  shows "\<exists>r s'. pick_next this active s = Inr (r, s')
    \<and> (r = None \<longleftrightarrow> m_local_queue (schedulers s this) = [])
    \<and> (case m_local_queue (schedulers s this) of
          [] \<Rightarrow> s' = s
        | c # rest \<Rightarrow> r = Some c \<and> m_local_queue (schedulers s' this) = rest)
    \<and> has_ready_fibers this s = Inr (m_local_queue (schedulers s this) \<noteq> [], s)"
proof (cases "m_local_queue (schedulers s this)")
  case Nil
  with assms show ?thesis
    by (simp add: pick_next_empty has_ready_fibers_free)
next
  case (Cons c rest)
  with assms show ?thesis
    by (simp add: pick_next_front has_ready_fibers_free pop_front_def attach_def)
qed

theorem pick_next_pops_front_witness:
  "\<not> s_mutex example_dispatched
   \<and> m_local_queue (schedulers example_dispatched 2) = [7]
   \<and> (\<exists>s'. pick_next 2 2 example_dispatched = Inr (Some 7, s')
         \<and> m_local_queue (schedulers s' 2) = [])
   \<and> has_ready_fibers 2 example_dispatched = Inr (True, example_dispatched)"
proof -
  have h: "\<not> s_mutex example_dispatched" by code_simp
  have q: "m_local_queue (schedulers example_dispatched 2) = [7]" by code_simp
  from pick_next_pops_front [OF h, of 2 2]
  show ?thesis using h q by auto
qed

text \<open>
  C7. \<^verbatim>\<open>suspend_until\<close> returns with the flag of its policy cleared, whatever the time
  point. With \<^verbatim>\<open>time_point::max()\<close> it returns from the wait only in a state in which
  the flag is true. A call on the policies that turns the flag of \<open>this\<close> from false to
  true is \<^verbatim>\<open>notify\<close> on \<open>this\<close>; so when the flag is false at the entry, a
  \<^verbatim>\<open>notify\<close> on \<open>this\<close> is among the events that have happened by the return. With
  any other time point the clock at the return does not exceed the deadline (or the
  clock at the entry, if that is later), the call does not stay blocked when the events
  hold enough ticks to reach the deadline, and with a deadline that has passed it returns
  at once, with no event consumed.
\<close>

theorem suspend_until_waits_for_flag_or_deadline:
  "(suspend_until this tp es s = Returned (s', es') \<longrightarrow> \<not> m_flag (schedulers s' this))
   \<and> (suspend_until this time_point_max fs t = Returned (t', fs') \<longrightarrow>
        (\<exists>t2. cv_wait this fs (t \<lparr> s_mutex := True \<rparr>) = Returned (t2, fs')
           \<and> m_flag (schedulers t2 this) \<and> unlock (set_flag this False t2) = Inr t'))
   \<and> (perform k u = Inr u' \<and> \<not> m_flag (schedulers u this) \<and> m_flag (schedulers u' this) \<longrightarrow>
        k = Notify this)
   \<and> (suspend_until this time_point_max fs t = Returned (t', fs')
        \<and> \<not> m_flag (schedulers t this) \<longrightarrow>
        (\<exists>pre. fs = pre @ fs' \<and> Call (Notify this) \<in> set pre))
   \<and> (tp \<noteq> time_point_max \<and> suspend_until this tp es s = Returned (s', es') \<longrightarrow>
        steady_clock s' \<le> max (steady_clock s) tp)
   \<and> (tp \<noteq> time_point_max \<and> \<not> s_mutex s \<and> tp - steady_clock s \<le> int (ticks es) \<longrightarrow>
        suspend_until this tp es s \<noteq> Blocks)
   \<and> (past \<noteq> time_point_max \<and> \<not> s_mutex v \<and> past \<le> steady_clock v \<longrightarrow>
        suspend_until this past gs v = Returned (set_flag this False v, gs))"
  using suspend_until_clears [of this tp es s s' es']
    suspend_forever_observes [of this fs t t' fs']
    perform_flag_only_notify [of k u u' this]
    suspend_forever_notified [of this fs t t' fs']
    suspend_deadline_clock [of tp this es s s' es']
    suspend_deadline_live [of tp s es this]
    suspend_deadline_due [of past v this gs]
  by blast

theorem suspend_until_waits_for_flag_or_deadline_witness:
  "suspend_until 1 5 [Tick, Spurious, Call (Awakened 0 7 7), Tick, Tick, Tick, Tick, Tick]
      example_ready
     = Returned
         (fst (result (suspend_until 1 5
            [Tick, Spurious, Call (Awakened 0 7 7), Tick, Tick, Tick, Tick, Tick] example_ready)),
          snd (result (suspend_until 1 5
            [Tick, Spurious, Call (Awakened 0 7 7), Tick, Tick, Tick, Tick, Tick] example_ready)))
   \<and> suspend_until 1 time_point_max
        [Tick, Spurious, Call (Awakened 0 7 7), Call (Notify 1), Tick] example_ready
     = Returned
         (fst (result (suspend_until 1 time_point_max
            [Tick, Spurious, Call (Awakened 0 7 7), Call (Notify 1), Tick] example_ready)),
          snd (result (suspend_until 1 time_point_max
            [Tick, Spurious, Call (Awakened 0 7 7), Call (Notify 1), Tick] example_ready)))
   \<and> perform (Notify 1) example_ready = Inr (projr (perform (Notify 1) example_ready))
   \<and> \<not> m_flag (schedulers example_ready 1)
   \<and> m_flag (schedulers (projr (perform (Notify 1) example_ready)) 1)
   \<and> (5::int) \<noteq> time_point_max \<and> \<not> s_mutex example_ready
   \<and> 5 - steady_clock example_ready
       \<le> int (ticks [Tick, Spurious, Call (Awakened 0 7 7), Tick, Tick, Tick, Tick, Tick])
   \<and> (- 3 :: int) \<noteq> time_point_max \<and> - 3 \<le> steady_clock example_ready
   \<and> \<not> m_flag (schedulers (fst (result (suspend_until 1 5
            [Tick, Spurious, Call (Awakened 0 7 7), Tick, Tick, Tick, Tick, Tick] example_ready))) 1)
   \<and> (\<exists>pre. [Tick, Spurious, Call (Awakened 0 7 7), Call (Notify 1), Tick]
           = pre @ snd (result (suspend_until 1 time_point_max
               [Tick, Spurious, Call (Awakened 0 7 7), Call (Notify 1), Tick] example_ready))
         \<and> Call (Notify 1) \<in> set pre)
   \<and> steady_clock (fst (result (suspend_until 1 5
            [Tick, Spurious, Call (Awakened 0 7 7), Tick, Tick, Tick, Tick, Tick] example_ready)))
       \<le> max (steady_clock example_ready) 5
   \<and> suspend_until 1 5 [Tick, Spurious, Call (Awakened 0 7 7), Tick, Tick, Tick, Tick, Tick]
        example_ready \<noteq> Blocks
   \<and> suspend_until 1 (- 3) [Tick] example_ready
       = Returned (set_flag 1 False example_ready, [Tick])"
proof -
  let ?es = "[Tick, Spurious, Call (Awakened 0 7 7), Tick, Tick, Tick, Tick, Tick]"
  let ?fs = "[Tick, Spurious, Call (Awakened 0 7 7), Call (Notify 1), Tick]"
  let ?d = "suspend_until 1 5 ?es example_ready"
  let ?f = "suspend_until 1 time_point_max ?fs example_ready"
  let ?n = "perform (Notify 1) example_ready"
  have "is_Returned ?d" by code_simp
  then have d: "?d = Returned (fst (result ?d), snd (result ?d))" by simp
  have "is_Returned ?f" by code_simp
  then have f: "?f = Returned (fst (result ?f), snd (result ?f))" by simp
  have "\<not> isl ?n" by code_simp
  then have n: "?n = Inr (projr ?n)" by simp
  have flags: "\<not> m_flag (schedulers example_ready 1)" "m_flag (schedulers (projr ?n) 1)"
    by code_simp+
  have h: "(5::int) \<noteq> time_point_max" "\<not> s_mutex example_ready"
    "5 - steady_clock example_ready \<le> int (ticks ?es)"
    "(- 3 :: int) \<noteq> time_point_max" "- 3 \<le> steady_clock example_ready"
    by code_simp+
  show ?thesis
    using d f n flags h
      suspend_until_waits_for_flag_or_deadline [where this = 1 and tp = 5 and es = ?es
        and s = example_ready and s' = "fst (result ?d)" and es' = "snd (result ?d)"
        and fs = ?fs and t = example_ready and t' = "fst (result ?f)" and fs' = "snd (result ?f)"
        and k = "Notify 1" and u = example_ready and u' = "projr ?n"
        and past = "- 3" and v = example_ready and gs = "[Tick]"]
    by blast
qed

text \<open>
  C8. A fiber property starts with \<open>m_previously_awakened\<close> false. After
  \<^verbatim>\<open>set_previously_awakened\<close> the query \<^verbatim>\<open>was_previously_awakened\<close> answers true,
  and a second call changes nothing more. The query does not modify the property. No
  operation sets the mark back to false: neither of the two methods of the property,
  nor any sequence of calls on the policies, nor \<^verbatim>\<open>suspend_until\<close>.
\<close>

theorem props_awakened_before_one_way:
  "\<not> m_previously_awakened (new_props c)
   \<and> fst (was_previously_awakened (set_previously_awakened p))
   \<and> set_previously_awakened (set_previously_awakened p) = set_previously_awakened p
   \<and> snd (was_previously_awakened p) = p
   \<and> (m_previously_awakened p \<longrightarrow>
        m_previously_awakened (set_previously_awakened p)
        \<and> m_previously_awakened (snd (was_previously_awakened p)))
   \<and> (m_previously_awakened (properties s q) \<and> run cs s = Inr s' \<longrightarrow>
        m_previously_awakened (properties s' q))
   \<and> (m_previously_awakened (properties t r)
        \<and> suspend_until this tp es t = Returned (t', es') \<longrightarrow>
        m_previously_awakened (properties t' r))"
  using run_props_mono [of cs s s' q] suspend_until_props_mono [of this tp es t t' es' r]
  by (simp add: new_props_def was_previously_awakened_def set_previously_awakened_def)

theorem props_awakened_before_one_way_witness:
  "m_previously_awakened (properties example_dispatched 7)
   \<and> run [PickNext 2 2, Awakened 2 7 7] example_dispatched
       = Inr (projr (run [PickNext 2 2, Awakened 2 7 7] example_dispatched))
   \<and> suspend_until 1 5 [Tick, Call (Notify 1), Tick] example_dispatched
       = Returned (fst (result (suspend_until 1 5 [Tick, Call (Notify 1), Tick] example_dispatched)),
                   snd (result (suspend_until 1 5 [Tick, Call (Notify 1), Tick] example_dispatched)))
   \<and> m_previously_awakened (set_previously_awakened (properties example_dispatched 7))
   \<and> m_previously_awakened
        (properties (projr (run [PickNext 2 2, Awakened 2 7 7] example_dispatched)) 7)
   \<and> m_previously_awakened
        (properties
          (fst (result (suspend_until 1 5 [Tick, Call (Notify 1), Tick] example_dispatched))) 7)"
proof -
  let ?cs = "[PickNext 2 2, Awakened 2 7 7]"
  let ?w = "suspend_until 1 5 [Tick, Call (Notify 1), Tick] example_dispatched"
  have marked: "m_previously_awakened (properties example_dispatched 7)"
    by code_simp
  have "\<not> isl (run ?cs example_dispatched)"
    by code_simp
  then have ran: "run ?cs example_dispatched = Inr (projr (run ?cs example_dispatched))"
    by simp
  have "is_Returned ?w"
    by code_simp
  then have woke: "?w = Returned (fst (result ?w), snd (result ?w))"
    by simp
  show ?thesis
    using marked ran woke
      props_awakened_before_one_way [of _ "properties example_dispatched 7"
        example_dispatched 7 ?cs "projr (run ?cs example_dispatched)"
        example_dispatched 7 1 5 "[Tick, Call (Notify 1), Tick]"
        "fst (result ?w)" "snd (result ?w)"]
    by blast
qed

text \<open>
  C9. The first constructor call with a thread count of 1 allocates a registry of length
  zero, and the registry keeps this length whatever is called afterwards. The first wake
  of a context that is not pinned then takes the counter modulo zero; reading the
  target slot of the empty registry is out of range as well. So when the first wake of
  such a context returns at all, the pool was constructed with a thread count of at
  least 2, of which the constructor checks nothing.
\<close>

theorem dispatch_needs_two_threads:
  "(\<exists>s0. constructor 1 True this (static_init ss cs ps) = Inr s0 \<and> s_schedulers s0 = [])
   \<and> (run (Construct 1 main1 this # ks1) (static_init ss cs ps) = Inr s
        \<and> \<not> is_pinned_context s c \<and> \<not> m_previously_awakened (properties s p) \<longrightarrow>
        s_schedulers s = []
        \<and> advance_cursor (detach c (s \<lparr> s_mutex := True \<rparr>)) = Inl ModuloByZero
        \<and> read_target s = Inl IndexOutOfRange
        \<and> awakened that c p s = Inl ModuloByZero)
   \<and> (run (Construct thread_count main2 this # ks2) (static_init ss cs ps) = Inr t
        \<and> \<not> is_pinned_context t d \<and> \<not> m_previously_awakened (properties t q)
        \<and> awakened that d q t = Inr t' \<longrightarrow>
        2 \<le> thread_count \<and> length (s_schedulers t) = thread_count - 1)"
proof -
  have pool: "once_flag u \<and> length (s_schedulers u) = n - 1 \<and> \<not> s_mutex u"
    if built: "run (Construct n m this # ks) (static_init ss cs ps) = Inr u"
    for n m ks u
  proof -
    from built obtain s1 where
      first: "constructor n m this (static_init ss cs ps) = Inr s1"
      and rest: "run ks s1 = Inr u"
      by (auto simp: and_then_Inr_iff)
    have "\<not> once_flag (static_init ss cs ps)" by (simp add: static_init_def)
    from constructor_first [OF this first]
    have s1: "once_flag s1" "length (s_schedulers s1) = n - 1" by simp_all
    have "\<not> s_mutex (static_init ss cs ps)" by (simp add: static_init_def)
    from run_mutex_free [OF built this] have "\<not> s_mutex u" .
    with run_registry_length [OF rest s1(1)] s1(2) show ?thesis by simp
  qed
  have one: "\<exists>s0. constructor 1 True this (static_init ss cs ps) = Inr s0 \<and> s_schedulers s0 = []"
    by (simp add: constructor_def static_init_def barrier_count_def)
  have two: "s_schedulers s = []
        \<and> advance_cursor (detach c (s \<lparr> s_mutex := True \<rparr>)) = Inl ModuloByZero
        \<and> read_target s = Inl IndexOutOfRange
        \<and> awakened that c p s = Inl ModuloByZero"
    if built: "run (Construct 1 main1 this # ks1) (static_init ss cs ps) = Inr s"
      and fresh: "\<not> is_pinned_context s c" "\<not> m_previously_awakened (properties s p)"
  proof -
    from pool [OF built] have empty: "s_schedulers s = []" and free: "\<not> s_mutex s"
      by simp_all
    from awakened_first_empty_registry [OF fresh free empty, of that] empty show ?thesis
      by (simp add: advance_cursor_def detach_def read_target_def)
  qed
  have three: "2 \<le> thread_count \<and> length (s_schedulers t) = thread_count - 1"
    if built: "run (Construct thread_count main2 this # ks2) (static_init ss cs ps) = Inr t"
      and fresh: "\<not> is_pinned_context t d" "\<not> m_previously_awakened (properties t q)"
      and ok: "awakened that d q t = Inr t'"
  proof -
    from pool [OF built] have len: "length (s_schedulers t) = thread_count - 1" by simp
    from awakened_first_needs_registry [OF fresh ok] have "s_schedulers t \<noteq> []" .
    with len show ?thesis by (cases "s_schedulers t") auto
  qed
  from one two three show ?thesis by blast
qed

theorem dispatch_needs_two_threads_witness:
  "run (Construct 1 True 0 # []) (static_init (\<lambda>t. idle_policy) example_contexts new_props)
     = Inr example_solo
   \<and> \<not> is_pinned_context example_solo 7
   \<and> \<not> m_previously_awakened (properties example_solo 7)
   \<and> run (Construct 3 True 0 # [Construct 3 False 1, Construct 3 False 2])
        (static_init (\<lambda>t. idle_policy) example_contexts new_props) = Inr example_ready
   \<and> \<not> is_pinned_context example_ready 7
   \<and> \<not> m_previously_awakened (properties example_ready 7)
   \<and> awakened 0 7 7 example_ready = Inr (projr (awakened 0 7 7 example_ready))
   \<and> s_schedulers example_solo = []
   \<and> awakened 0 7 7 example_solo = Inl ModuloByZero
   \<and> read_target example_solo = Inl IndexOutOfRange
   \<and> (2::nat) \<le> 3
   \<and> length (s_schedulers example_ready) = 3 - 1"
proof -
  let ?boot = "static_init (\<lambda>t. idle_policy) example_contexts new_props"
  let ?solo = "Construct 1 True 0 # []"
  let ?ks = "Construct 3 True 0 # [Construct 3 False 1, Construct 3 False 2]"
  have "\<not> isl (run ?solo ?boot)" by code_simp
  then have "run ?solo ?boot = Inr (projr (run ?solo ?boot))" by simp
  then have a1: "run ?solo ?boot = Inr example_solo"
    by (simp add: example_solo_def example_boot_def)
  have a2: "\<not> is_pinned_context example_solo 7" by code_simp
  have a3: "\<not> m_previously_awakened (properties example_solo 7)" by code_simp
  have "\<not> isl (run ?ks ?boot)" by code_simp
  then have "run ?ks ?boot = Inr (projr (run ?ks ?boot))" by simp
  then have b1: "run ?ks ?boot = Inr example_ready"
    by (simp add: example_ready_def example_regs_def register_def example_boot_def)
  have b2: "\<not> is_pinned_context example_ready 7" by code_simp
  have b3: "\<not> m_previously_awakened (properties example_ready 7)" by code_simp
  have "\<not> isl (awakened 0 7 7 example_ready)" by code_simp
  then have b4: "awakened 0 7 7 example_ready = Inr (projr (awakened 0 7 7 example_ready))"
    by simp
  show ?thesis
    using a1 a2 a3 b1 b2 b3 b4
      dispatch_needs_two_threads [where this = 0 and ss = "\<lambda>t. idle_policy"
        and cs = example_contexts and ps = new_props
        and ?main1.0 = True and ?ks1.0 = "[]" and s = example_solo and c = 7 and p = 7
        and that = 0 and thread_count = 3 and ?main2.0 = True
        and ?ks2.0 = "[Construct 3 False 1, Construct 3 False 2]" and t = example_ready
        and d = 7 and q = 7 and t' = "projr (awakened 0 7 7 example_ready)"]
    by simp
qed

text \<open>
  C10. The constructors and the dispatch use the same counter. A pool is constructed with
  a thread count of \<open>n + 1\<close>, which the barrier accepts, and \<open>n\<close> workers at distinct
  addresses, \<open>n\<close> at least 2. After the construction the counter equals the length of the registry. Fibers that are
  not pinned are then awakened for the first time, one after the other, on some policy.
  After \<open>k\<close> of them, worker slot \<open>i\<close> has in its queue the fibers whose number, counted
  from 1, is congruent to \<open>i\<close> modulo \<open>n\<close>: the first fiber is in the queue of slot 1,
  not of slot 0; the queue of slot 0 is empty as long as fewer than \<open>n\<close> fibers have
  been dispatched, and the \<open>n\<close>-th fiber is its first.
\<close>

theorem first_dispatch_targets_slot_one:
  assumes n: "2 \<le> n" and tc: "thread_count = n + 1" "thread_count < 2 ^ 64"
    and bc: "barrier_count thread_count \<noteq> 0"
    and ws: "length (workers rs) = n" "distinct (workers rs)"
    and fresh: "distinct (map snd fs)"
      "\<forall>f \<in> set fs. \<not> pinned (cs (fst f)) \<and> \<not> m_previously_awakened (ps (snd f))"
  shows "\<exists>s. run (map (register thread_count) rs) (static_init ss cs ps) = Inr s
     \<and> s_current_scheduler s = length (s_schedulers s) \<and> length (s_schedulers s) = n
     \<and> (\<forall>i < n. s_schedulers s ! i = Some (workers rs ! i))
     \<and> (\<forall>k \<le> length fs. \<exists>s'. run (map (dispatch this) (take k fs)) s = Inr s'
          \<and> (\<forall>i < n. m_local_queue (schedulers s' (workers rs ! i))
                = round_robin_share n i (map fst (take k fs)))
          \<and> (k = 1 \<longrightarrow> m_local_queue (schedulers s' (workers rs ! 1)) = [fst (fs ! 0)]
                     \<and> m_local_queue (schedulers s' (workers rs ! 0)) = [])
          \<and> (k < n \<longrightarrow> m_local_queue (schedulers s' (workers rs ! 0)) = [])
          \<and> (k = n \<longrightarrow> m_local_queue (schedulers s' (workers rs ! 0)) = [fst (fs ! (n - 1))]))"
proof -
  from ws n have ne: "rs \<noteq> []" by (auto simp: workers_def)
  have room: "length (workers rs) \<le> thread_count - 1" using ws tc by simp
  from registered [OF ne bc tc(2) room, of ss cs ps] obtain s where
    s: "run (map (register thread_count) rs) (static_init ss cs ps) = Inr s"
      "\<not> s_mutex s" "s_schedulers s = registry_after thread_count (workers rs)"
      "s_current_scheduler s = length (workers rs)" "contexts s = cs" "properties s = ps"
      "\<forall>t \<in> fst ` set rs. m_local_queue (schedulers s t) = []"
    by blast
  have reg: "s_schedulers s = map Some (workers rs)"
    using s(3) ws tc by (simp add: registry_after_def)
  have idle: "m_local_queue (schedulers s (workers rs ! i)) = []" if "i < n" for i
  proof -
    from that ws have "workers rs ! i \<in> set (workers rs)" by simp
    then have "workers rs ! i \<in> fst ` set rs" by (auto simp: workers_def)
    with s(7) show ?thesis by blast
  qed
  have n1: "1 \<le> n" and nmax: "n + 1 < 2 ^ 64" using n tc by simp_all
  have rounds: "\<exists>s'. run (map (dispatch this) (take k fs)) s = Inr s'
          \<and> (\<forall>i < n. m_local_queue (schedulers s' (workers rs ! i))
                = round_robin_share n i (map fst (take k fs)))
          \<and> (k = 1 \<longrightarrow> m_local_queue (schedulers s' (workers rs ! 1)) = [fst (fs ! 0)]
                     \<and> m_local_queue (schedulers s' (workers rs ! 0)) = [])
          \<and> (k < n \<longrightarrow> m_local_queue (schedulers s' (workers rs ! 0)) = [])
          \<and> (k = n \<longrightarrow> m_local_queue (schedulers s' (workers rs ! 0)) = [fst (fs ! (n - 1))])"
    if k: "k \<le> length fs" for k
  proof -
    let ?fs = "take k fs"
    have d: "distinct (map snd ?fs)"
      using fresh(1) by (simp add: distinct_take flip: take_map)
    have f: "\<forall>f \<in> set ?fs. \<not> pinned (contexts s (fst f))
        \<and> \<not> m_previously_awakened (properties s (snd f))"
      using fresh(2) s(5,6) by (auto dest: in_set_takeD)
    from dispatched [OF s(2) reg ws(1) n1 nmax ws(2) _ d f, of this] s(4) ws(1)
    obtain s' where
      s': "run (map (dispatch this) ?fs) s = Inr s'"
      "\<forall>i < n. m_local_queue (schedulers s' (workers rs ! i))
           = m_local_queue (schedulers s (workers rs ! i)) @ round_robin_share n i (map fst ?fs)"
      by auto
    have q: "\<forall>i < n. m_local_queue (schedulers s' (workers rs ! i))
                = round_robin_share n i (map fst ?fs)"
      using s'(2) idle by simp
    have len: "length (map fst ?fs) = k" using k by simp
    have one: "m_local_queue (schedulers s' (workers rs ! 1)) = [fst (fs ! 0)]
                     \<and> m_local_queue (schedulers s' (workers rs ! 0)) = []" if "k = 1"
    proof -
      from that k have "map fst ?fs = [fst (fs ! 0)]"
        by (cases fs) simp_all
      with q n show ?thesis
        using round_robin_share_first [OF n, of "fst (fs ! 0)"]
          round_robin_share_0_short [of "[fst (fs ! 0)]" n]
        by simp
    qed
    have short: "m_local_queue (schedulers s' (workers rs ! 0)) = []" if "k < n"
      using q n that len round_robin_share_0_short [of "map fst ?fs" n] by simp
    have full: "m_local_queue (schedulers s' (workers rs ! 0)) = [fst (fs ! (n - 1))]" if "k = n"
    proof -
      from that k n have "?fs \<noteq> []" by auto
      then have "last (map fst ?fs) = fst (last ?fs)" by (simp add: last_map)
      also have "last ?fs = ?fs ! (k - 1)"
        using \<open>?fs \<noteq> []\<close> k by (simp add: last_conv_nth)
      also have "\<dots> = fs ! (n - 1)" using that n by simp
      finally have "last (map fst ?fs) = fst (fs ! (n - 1))" .
      with q n that len round_robin_share_0_full [of "map fst ?fs" n] show ?thesis by simp
    qed
    from s'(1) q one short full show ?thesis by blast
  qed
  have "s_current_scheduler s = length (s_schedulers s)" "length (s_schedulers s) = n"
    using s(4) reg ws by simp_all
  moreover have "\<forall>i < n. s_schedulers s ! i = Some (workers rs ! i)"
    using reg ws by simp
  ultimately show ?thesis using s(1) rounds by blast
qed

theorem first_dispatch_targets_slot_one_witness:
  "(2::nat) \<le> 2 \<and> (3::nat) = 2 + 1 \<and> (3::nat) < 2 ^ 64 \<and> barrier_count 3 \<noteq> 0
   \<and> length (workers example_regs) = 2 \<and> distinct (workers example_regs)
   \<and> distinct (map snd example_fibers)
   \<and> list_all (\<lambda>f. \<not> pinned (example_contexts (fst f))
                    \<and> \<not> m_previously_awakened (new_props (snd f))) example_fibers
   \<and> (\<exists>s s1 s2.
         run (map (register 3) example_regs) example_boot = Inr s
       \<and> s_current_scheduler s = 2 \<and> length (s_schedulers s) = 2
       \<and> s_schedulers s ! 0 = Some 1 \<and> s_schedulers s ! 1 = Some 2
       \<and> run (map (dispatch 0) (take 1 example_fibers)) s = Inr s1
       \<and> m_local_queue (schedulers s1 2) = [7]
       \<and> m_local_queue (schedulers s1 1) = []
       \<and> run (map (dispatch 0) (take 2 example_fibers)) s = Inr s2
       \<and> m_local_queue (schedulers s2 1) = [8])"
proof -
  have h1: "(2::nat) \<le> 2" and h2: "(3::nat) = 2 + 1" and h3: "(3::nat) < 2 ^ 64"
    by simp_all
  have hb: "barrier_count 3 \<noteq> 0" by code_simp
  have h4: "length (workers example_regs) = 2" by code_simp
  have h5: "distinct (workers example_regs)" by code_simp
  have h6: "distinct (map snd example_fibers)" by code_simp
  have h7: "list_all (\<lambda>f. \<not> pinned (example_contexts (fst f))
                    \<and> \<not> m_previously_awakened (new_props (snd f))) example_fibers"
    by code_simp
  then have h7': "\<forall>f \<in> set example_fibers. \<not> pinned (example_contexts (fst f))
                    \<and> \<not> m_previously_awakened (new_props (snd f))"
    by (simp add: list_all_iff)
  have w0: "workers example_regs ! 0 = 1" and w1: "workers example_regs ! 1 = 2"
    by code_simp+
  have f0: "fst (example_fibers ! 0) = 7" and f1: "fst (example_fibers ! (2 - 1)) = 8"
    by code_simp+
  have l: "(1::nat) \<le> length example_fibers" "(2::nat) \<le> length example_fibers"
    by code_simp+
  from first_dispatch_targets_slot_one [OF h1 h2 h3 hb h4 h5 h6 h7',
      of "\<lambda>t. idle_policy" 0]
  obtain s where
    s: "run (map (register 3) example_regs) example_boot = Inr s"
      "s_current_scheduler s = length (s_schedulers s)" "length (s_schedulers s) = 2"
      "\<forall>i < 2. s_schedulers s ! i = Some (workers example_regs ! i)"
    and rounds: "\<forall>k \<le> length example_fibers.
        \<exists>s'. run (map (dispatch 0) (take k example_fibers)) s = Inr s'
          \<and> (\<forall>i < 2. m_local_queue (schedulers s' (workers example_regs ! i))
                = round_robin_share 2 i (map fst (take k example_fibers)))
          \<and> (k = 1 \<longrightarrow> m_local_queue (schedulers s' (workers example_regs ! 1))
                       = [fst (example_fibers ! 0)]
                     \<and> m_local_queue (schedulers s' (workers example_regs ! 0)) = [])
          \<and> (k < 2 \<longrightarrow> m_local_queue (schedulers s' (workers example_regs ! 0)) = [])
          \<and> (k = 2 \<longrightarrow> m_local_queue (schedulers s' (workers example_regs ! 0))
                       = [fst (example_fibers ! (2 - 1))])"
    unfolding example_boot_def by blast
  from rounds l(1) obtain s1 where
    s1: "run (map (dispatch 0) (take 1 example_fibers)) s = Inr s1"
      "m_local_queue (schedulers s1 (workers example_regs ! 1)) = [fst (example_fibers ! 0)]"
      "m_local_queue (schedulers s1 (workers example_regs ! 0)) = []"
    by blast
  from rounds l(2) obtain s2 where
    s2: "run (map (dispatch 0) (take 2 example_fibers)) s = Inr s2"
      "m_local_queue (schedulers s2 (workers example_regs ! 0)) = [fst (example_fibers ! (2 - 1))]"
    by blast
  have slots: "s_schedulers s ! 0 = Some 1" "s_schedulers s ! 1 = Some 2"
    using s(4) w0 w1 by simp_all
  show ?thesis
    using hb h4 h5 h6 h7 s(1,2,3) slots s1 s2 unfolding w0 w1 f0 f1 by auto
qed

end
